theory Spec2Isabelle
  imports Main "HOL-Library.AList" "HOL-Library.Sublist"
begin

section \<open>Text: characters, stripping\<close>

text \<open>
  A Python \<open>str\<close> is modelled as a \<open>string\<close>; a \<open>char\<close> stands for the code point
  of the same number, so the model covers text over U+0000..U+00FF. On that range
  \<open>str.isspace\<close> (which \<open>str.strip\<close>, \<open>str.rstrip\<close> and the regex class \<open>\s\<close> use) holds
  of the code points 9..13, 28..32, 133 and 160, and \<open>\d\<close> holds of the ASCII digits only.
\<close>

definition isspace :: "char \<Rightarrow> bool" where
  "isspace c = (let n = (of_char c :: nat) in
     (9 \<le> n \<and> n \<le> 13) \<or> (28 \<le> n \<and> n \<le> 32) \<or> n = 133 \<or> n = 160)"

definition isdigit :: "char \<Rightarrow> bool" where
  "isdigit c = (let n = (of_char c :: nat) in 48 \<le> n \<and> n \<le> 57)"

definition isupper :: "char \<Rightarrow> bool" where
  "isupper c = (let n = (of_char c :: nat) in 65 \<le> n \<and> n \<le> 90)"

definition islower :: "char \<Rightarrow> bool" where
  "islower c = (let n = (of_char c :: nat) in 97 \<le> n \<and> n \<le> 122)"

definition newline :: char where
  "newline = CHR 0x0A"

definition lstrip :: "string \<Rightarrow> string" where
  "lstrip s = dropWhile isspace s"

definition rstrip :: "string \<Rightarrow> string" where
  "rstrip s = rev (dropWhile isspace (rev s))"

definition strip :: "string \<Rightarrow> string" where
  "strip s = rstrip (lstrip s)"

definition startswith :: "string \<Rightarrow> string \<Rightarrow> bool" where
  "startswith s p = (take (length p) s = p)"

section \<open>The regular expressions of the source\<close>

text \<open>
  The patterns of \<open>template_checker.py\<close> are sequences of single-character classes, each
  taken once, optionally, or repeated greedily, and the anchor \<open>$\<close>. They all start with
  \<open>^\<close> and are used without flags, so a match can only start at position 0.
\<close>

datatype cls =
    Dot          \<comment> \<open>\<open>.\<close>: any character but the newline\<close>
  | Space        \<comment> \<open>\<open>\s\<close>\<close>
  | Digit        \<comment> \<open>\<open>\d\<close>\<close>
  | Word         \<comment> \<open>\<open>[a-zA-Z0-9_]\<close>\<close>
  | Upper        \<comment> \<open>\<open>[A-Z0-9_]\<close>\<close>
  | NotQuote     \<comment> \<open>\<open>[^"]\<close>\<close>
  | Lit char     \<comment> \<open>a literal character\<close>

fun in_cls :: "cls \<Rightarrow> char \<Rightarrow> bool" where
  "in_cls Dot c = (c \<noteq> newline)"
| "in_cls Space c = isspace c"
| "in_cls Digit c = isdigit c"
| "in_cls Word c = (islower c \<or> isupper c \<or> isdigit c \<or> c = CHR ''_'')"
| "in_cls Upper c = (isupper c \<or> isdigit c \<or> c = CHR ''_'')"
| "in_cls NotQuote c = (c \<noteq> CHR 0x22)"
| "in_cls (Lit d) c = (c = d)"

datatype item =
    One cls      \<comment> \<open>\<open>c\<close>\<close>
  | Opt cls      \<comment> \<open>\<open>c?\<close>\<close>
  | Star cls     \<comment> \<open>\<open>c*\<close>\<close>
  | Plus cls     \<comment> \<open>\<open>c+\<close>\<close>
  | Eol          \<comment> \<open>\<open>$\<close>: at the end, or before a newline that ends the string\<close>

definition lits :: "string \<Rightarrow> item list" where
  "lits w = map (\<lambda>c. One (Lit c)) w"

definition hit :: "string \<Rightarrow> (string list \<times> string) option \<Rightarrow> (string list \<times> string) option" where
  "hit m r = (case r of None \<Rightarrow> None | Some (ms, rest) \<Rightarrow> Some (m # ms, rest))"

definition grow :: "char \<Rightarrow> (string list \<times> string) option \<Rightarrow> (string list \<times> string) option" where
  "grow x r = (case r of Some (m # ms, rest) \<Rightarrow> Some ((x # m) # ms, rest) | _ \<Rightarrow> None)"

text \<open>
  \<open>rmatch items s\<close> matches \<open>items\<close> at the start of \<open>s\<close> the way a backtracking engine
  does: a greedy repetition first takes one more character and gives it back only when
  the rest of the pattern then fails. The result is the text each item matched and the
  text left after the match.
\<close>

fun rmatch :: "item list \<Rightarrow> string \<Rightarrow> (string list \<times> string) option" where
  "rmatch [] s = Some ([], s)"
| "rmatch (Eol # is) s =
     (if s = [] \<or> s = [newline] then hit [] (rmatch is s) else None)"
| "rmatch (One c # is) [] = None"
| "rmatch (One c # is) (x # xs) =
     (if in_cls c x then hit [x] (rmatch is xs) else None)"
| "rmatch (Opt c # is) [] = hit [] (rmatch is [])"
| "rmatch (Opt c # is) (x # xs) =
     (if in_cls c x
      then (case rmatch is xs of
              Some (ms, rest) \<Rightarrow> Some ([x] # ms, rest)
            | None \<Rightarrow> hit [] (rmatch is (x # xs)))
      else hit [] (rmatch is (x # xs)))"
| "rmatch (Star c # is) [] = hit [] (rmatch is [])"
| "rmatch (Star c # is) (x # xs) =
     (if in_cls c x
      then (case grow x (rmatch (Star c # is) xs) of
              Some r \<Rightarrow> Some r
            | None \<Rightarrow> hit [] (rmatch is (x # xs)))
      else hit [] (rmatch is (x # xs)))"
| "rmatch (Plus c # is) [] = None"
| "rmatch (Plus c # is) (x # xs) =
     (if in_cls c x then grow x (rmatch (Star c # is) xs) else None)"

text \<open>
  \<open>re.sub(pattern, r'\1' + repl, s)\<close> for a pattern that is anchored at the start and
  whose group 1 is its first \<open>g\<close> items: the match, if any, is replaced by group 1
  followed by \<open>repl\<close>; the text after the match stays.
\<close>

definition re_sub :: "item list \<Rightarrow> nat \<Rightarrow> string \<Rightarrow> string \<Rightarrow> string" where
  "re_sub items g repl s =
     (case rmatch items s of
        None \<Rightarrow> s
      | Some (ms, rest) \<Rightarrow> concat (take g ms) @ repl @ rest)"

section \<open>Line normalization\<close>

definition env_pattern :: "item list" where
  "env_pattern = [Plus Upper, One (Lit CHR ''=''), Star Dot, Eol]"

definition secret_pattern :: "string \<Rightarrow> item list" where
  "secret_pattern marker = Star Dot # lits marker @ [Star Dot, Eol]"

definition key_prefix :: "item list" where
  "key_prefix = [Star Space, Opt (Lit CHR 0x22), Plus Word, Opt (Lit CHR 0x22),
                 Star Space, One (Lit CHR '':''), Star Space]"

definition json_string_pattern :: "item list" where
  "json_string_pattern = key_prefix @ [One (Lit CHR 0x22), Star NotQuote, One (Lit CHR 0x22)]"

definition json_number_pattern :: "item list" where
  "json_number_pattern = key_prefix @ [Plus Digit]"

definition compose_pattern :: "item list" where
  "compose_pattern =
     [Star Space, One (Lit CHR ''-''), Star Space, One (Lit CHR 0x22), Star NotQuote,
      One (Lit CHR ''=''), Star NotQuote, One (Lit CHR 0x22), Eol]"

definition normalize_line :: "string \<Rightarrow> string" where
  "normalize_line line0 =
     (let line = strip line0;
          line = re_sub env_pattern 1 ''=<VALUE>'' line;
          line = re_sub (secret_pattern ''_SECRET='') 9 ''<SECRET>'' line;
          line = re_sub (secret_pattern ''_KEY='') 6 ''<KEY>'' line;
          line = re_sub (secret_pattern ''_TOKEN='') 8 ''<TOKEN>'' line;
          line = re_sub (secret_pattern ''_PASSWORD='') 11 ''<PASSWORD>'' line;
          line = re_sub json_string_pattern 7 (CHR 0x22 # ''<VALUE>'' @ [CHR 0x22]) line;
          line = re_sub json_number_pattern 7 ''<NUMBER>'' line;
          line = re_sub compose_pattern 6 (''<VALUE>'' @ [CHR 0x22]) line
      in line)"

section \<open>Glob patterns (\<open>fnmatch\<close>)\<close>

text \<open>
  \<open>fnmatch.fnmatch(name, pat)\<close> and \<open>fnmatch.filter(names, pat)\<close> on a POSIX system, where
  \<open>os.path.normcase\<close> is the identity: \<open>*\<close> stands for any text and \<open>?\<close> for any one
  character (including \<open>/\<close> and the newline), \<open>[seq]\<close> for one character of \<open>seq\<close>,
  \<open>[!seq]\<close> for one character not in \<open>seq\<close>, a \<open>[\<close> that is never closed for itself,
  and the whole name must be matched. A set is kept as the text between its brackets.
\<close>

datatype gtok = GStar | GAny | GChar char | GSet string

definition closes :: "string \<Rightarrow> bool" where
  "closes p = (let q = (if startswith p ''!'' then tl p else p)
               in q \<noteq> [] \<and> CHR '']'' \<in> set (tl q))"

fun tokens :: "string \<Rightarrow> gtok list"
  and set_open :: "string \<Rightarrow> gtok list"
  and set_first :: "string \<Rightarrow> string \<Rightarrow> gtok list"
  and set_body :: "string \<Rightarrow> string \<Rightarrow> gtok list" where
  "tokens [] = []"
| "tokens (p # ps) =
     (if p = CHR ''*'' then GStar # tokens ps
      else if p = CHR ''?'' then GAny # tokens ps
      else if p = CHR ''['' \<and> closes ps then set_open ps
      else GChar p # tokens ps)"
| "set_open [] = []"
| "set_open (x # xs) = (if x = CHR ''!'' then set_first [x] xs else set_body [x] xs)"
| "set_first stuff [] = []"
| "set_first stuff (x # xs) = set_body (stuff @ [x]) xs"
| "set_body stuff [] = []"
| "set_body stuff (x # xs) =
     (if x = CHR '']'' then GSet stuff # tokens xs else set_body (stuff @ [x]) xs)"

text \<open>
  What \<open>fnmatch.translate\<close> does with the text \<open>stuff\<close> between the brackets. It cuts the
  text into chunks at the hyphens that stand for a range: the search for a hyphen skips
  the first character of the set (the first two after \<open>!\<close>) and the two characters after
  a hyphen it has found. A hyphen at the very end is put back into the last chunk.
\<close>

fun chunks_from :: "nat \<Rightarrow> string \<Rightarrow> string \<Rightarrow> string list" where
  "chunks_from skip chunk [] = [chunk]"
| "chunks_from skip chunk (x # xs) =
     (if skip = 0 \<and> x = CHR ''-'' then chunk # chunks_from 2 [] xs
      else chunks_from (skip - 1) (chunk @ [x]) xs)"

definition close_chunks :: "string list \<Rightarrow> string list" where
  "close_chunks chunks =
     (if last chunks = [] \<and> butlast chunks \<noteq> []
      then butlast (butlast chunks) @ [last (butlast chunks) @ ''-'']
      else chunks)"

text \<open>From the last chunk to the first, a range whose start is after its end is removed
  with its two ends, and the two chunks become one (the loop \<open>Remove empty ranges\<close>; the
  chunks it compares are never empty).\<close>

fun drop_empty_ranges :: "string list \<Rightarrow> string list" where
  "drop_empty_ranges (a # b # chunks) =
     (case drop_empty_ranges (b # chunks) of
        [] \<Rightarrow> [a]
      | b' # chunks' \<Rightarrow>
          if a \<noteq> [] \<and> b' \<noteq> [] \<and> (of_char (last a) :: nat) > of_char (hd b')
          then (butlast a @ tl b') # chunks'
          else a # b' # chunks')"
| "drop_empty_ranges chunks = chunks"

text \<open>The chunks, joined by hyphens, are the body of a character class of \<open>re\<close> in which
  every other character is escaped: a character is in the class when it occurs in a chunk
  or lies between the end of a chunk and the start of the next.\<close>

fun in_ranges :: "string list \<Rightarrow> char \<Rightarrow> bool" where
  "in_ranges (a # b # chunks) c =
     ((a \<noteq> [] \<and> b \<noteq> [] \<and> (of_char (last a) :: nat) \<le> of_char c \<and> (of_char c :: nat) \<le> of_char (hd b))
      \<or> in_ranges (b # chunks) c)"
| "in_ranges chunks c = False"

definition in_chunks :: "string list \<Rightarrow> char \<Rightarrow> bool" where
  "in_chunks chunks c = (c \<in> set (concat chunks) \<or> in_ranges chunks c)"

text \<open>When nothing is left the set matches no character (\<open>(?!)\<close>); when only \<open>!\<close> is left
  it matches every character (\<open>.\<close>); when what is left starts with \<open>!\<close> the class is
  negated.\<close>

definition in_set :: "string \<Rightarrow> char \<Rightarrow> bool" where
  "in_set stuff c =
     (let chunks = drop_empty_ranges
                     (close_chunks (chunks_from (if startswith stuff ''!'' then 2 else 1) [] stuff))
      in if chunks = [[]] then False
         else if chunks = [''!''] then True
         else if startswith (hd chunks) ''!'' then \<not> in_chunks (tl (hd chunks) # tl chunks) c
         else in_chunks chunks c)"

fun gmatch :: "gtok list \<Rightarrow> string \<Rightarrow> bool" where
  "gmatch [] n = (n = [])"
| "gmatch (GStar # ts) [] = gmatch ts []"
| "gmatch (GStar # ts) (c # cs) = (gmatch ts (c # cs) \<or> gmatch (GStar # ts) cs)"
| "gmatch (GAny # ts) (c # cs) = gmatch ts cs"
| "gmatch (GChar d # ts) (c # cs) = (c = d \<and> gmatch ts cs)"
| "gmatch (GSet stuff # ts) (c # cs) = (in_set stuff c \<and> gmatch ts cs)"
| "gmatch (t # ts) [] = False"

definition fnmatch :: "string \<Rightarrow> string \<Rightarrow> bool" where
  "fnmatch name pat = gmatch (tokens pat) name"

section \<open>Discovery of template files\<close>

definition TEMPLATE_PATTERNS :: "string list" where
  "TEMPLATE_PATTERNS =
     [''*.template.*'', ''*.template'', ''*.env.template'',
      ''*/*.template.*'', ''*/*.template'', ''*/*.env.template'']"

text \<open>The value the module gives \<open>EXCLUDE_PATTERNS\<close> when it is loaded. The list is a
  module-level variable: the functions below take its current value as an argument.\<close>

definition EXCLUDE_PATTERNS :: "string list" where
  "EXCLUDE_PATTERNS =
     [''**/config.template.js'', ''**/mirotalk/app/src/config.template.js'',
      ''**/mirotalk_backup/app/src/config.template.js'', ''**/.git*/**'']"

record checker =
  base_dir :: string
  verbose :: bool
  template_files :: "string list"
  parent_files :: "(string \<times> string) list"
  differences :: "(string \<times> string list) list"

text \<open>\<open>TemplateChecker(base_dir, verbose)\<close>; \<open>base_dir\<close> is the absolute path already. The two
  dictionaries are association lists in insertion order, written with \<open>AList.update\<close>.\<close>

definition init_checker :: "string \<Rightarrow> bool \<Rightarrow> checker" where
  "init_checker dir v =
     \<lparr>base_dir = dir, verbose = v, template_files = [], parent_files = [], differences = []\<rparr>"

definition is_excluded_file :: "string list \<Rightarrow> string \<Rightarrow> bool" where
  "is_excluded_file excl file_path = list_ex (\<lambda>pattern. fnmatch file_path pattern) excl"

text \<open>
  \<open>os.walk(base_dir)\<close> is given as the list of its \<open>(root, files)\<close> pairs in the order it
  yields them, \<open>root\<close> written relative to \<open>base_dir\<close> (empty for \<open>base_dir\<close> itself), so that
  \<open>os.path.relpath(os.path.join(root, filename), base_dir)\<close> is \<open>rel_path root filename\<close>.
\<close>

type_synonym walk = "(string \<times> string list) list"

definition rel_path :: "string \<Rightarrow> string \<Rightarrow> string" where
  "rel_path root filename = (if root = [] then filename else root @ ''/'' @ filename)"

text \<open>The relative paths the three nested loops reach, in the order they reach them.\<close>

definition visited :: "walk \<Rightarrow> string list" where
  "visited w =
     concat (map (\<lambda>(root, files).
       concat (map (\<lambda>pattern. map (rel_path root) (filter (\<lambda>f. fnmatch f pattern) files))
                   TEMPLATE_PATTERNS)) w)"

definition find_template_files :: "string list \<Rightarrow> walk \<Rightarrow> checker \<Rightarrow> checker \<times> string list" where
  "find_template_files excl w c =
     (let found = filter (\<lambda>p. \<not> is_excluded_file excl p) (visited w);
          trace = map (\<lambda>p. if is_excluded_file excl p then ''Excluding file: '' @ p
                            else ''Found template file: '' @ p) (visited w)
      in (c\<lparr>template_files := found\<rparr>,
          (''Searching for template files in '' @ base_dir c @ ''...'')
            # (if verbose c then trace else [])))"

section \<open>The file system\<close>

text \<open>
  What the program sees of a path: nothing, something that is not a regular file, or a
  regular file, for which \<open>open\<close> and \<open>readlines\<close> either give the lines or raise an
  exception of the given text.
\<close>

datatype fnode = Directory | Regular "string + string list"

type_synonym filesystem = "string \<Rightarrow> fnode option"

definition path_exists :: "filesystem \<Rightarrow> string \<Rightarrow> bool" where
  "path_exists fs p = (fs p \<noteq> None)"

definition isfile :: "filesystem \<Rightarrow> string \<Rightarrow> bool" where
  "isfile fs p = (case fs p of Some (Regular r) \<Rightarrow> True | _ \<Rightarrow> False)"

text \<open>\<open>os.path.join(a, b)\<close> of \<open>posixpath\<close>.\<close>

definition path_join :: "string \<Rightarrow> string \<Rightarrow> string" where
  "path_join a b =
     (if startswith b ''/'' then b
      else if a = [] \<or> last a = CHR ''/'' then a @ b
      else a @ ''/'' @ b)"

section \<open>Matching templates with parent files\<close>

definition group :: "string list \<Rightarrow> nat \<Rightarrow> nat \<Rightarrow> string" where
  "group ms i n = concat (take n (drop i ms))"

text \<open>Pattern 1: \<open>^(.+)\.template(\..+)$\<close>, parent \<open>\1\2\<close>.\<close>

definition rule1 :: "string \<Rightarrow> string option" where
  "rule1 t =
     (case rmatch (Plus Dot # lits ''.template'' @ [One (Lit CHR ''.''), Plus Dot, Eol]) t of
        None \<Rightarrow> None
      | Some (ms, rest) \<Rightarrow> Some (group ms 0 1 @ group ms 10 2))"

text \<open>Pattern 2: \<open>^(.+)\.template$\<close>, parent \<open>\1\<close>.\<close>

definition rule2 :: "string \<Rightarrow> string option" where
  "rule2 t =
     (case rmatch (Plus Dot # lits ''.template'' @ [Eol]) t of
        None \<Rightarrow> None
      | Some (ms, rest) \<Rightarrow> Some (group ms 0 1))"

text \<open>Pattern 3: \<open>^(.+)\.env\.template$\<close>, parent \<open>\1.env\<close>.\<close>

definition rule3 :: "string \<Rightarrow> string option" where
  "rule3 t =
     (case rmatch (Plus Dot # lits ''.env.template'' @ [Eol]) t of
        None \<Rightarrow> None
      | Some (ms, rest) \<Rightarrow> Some (group ms 0 1 @ ''.env''))"

text \<open>One of the three blocks: \<open>parent_file\<close> is replaced when the pattern matches and
  the derived path exists.\<close>

definition try_rule ::
  "filesystem \<Rightarrow> string \<Rightarrow> (string \<Rightarrow> string option) \<Rightarrow> string \<Rightarrow> string option \<Rightarrow> string option" where
  "try_rule fs base rule t parent_file =
     (case rule t of
        None \<Rightarrow> parent_file
      | Some potential_parent \<Rightarrow>
          if path_exists fs (path_join base potential_parent) then Some potential_parent
          else parent_file)"

text \<open>Python's truth value of \<open>parent_file\<close>: \<open>None\<close> and the empty string are false.\<close>

definition truthy :: "string option \<Rightarrow> bool" where
  "truthy p = (case p of None \<Rightarrow> False | Some s \<Rightarrow> s \<noteq> [])"

definition find_parent :: "filesystem \<Rightarrow> string \<Rightarrow> string \<Rightarrow> string option" where
  "find_parent fs base t =
     (let parent_file = try_rule fs base rule1 t None;
          parent_file = (if \<not> truthy parent_file then try_rule fs base rule2 t parent_file
                         else parent_file);
          parent_file = (if \<not> truthy parent_file then try_rule fs base rule3 t parent_file
                         else parent_file)
      in parent_file)"

text \<open>The body of the loop of \<open>find_parent_files\<close> for one template file, on the
  dictionary and the output so far.\<close>

definition match_template ::
  "filesystem \<Rightarrow> string \<Rightarrow> string \<Rightarrow> (string \<times> string) list \<times> string list
     \<Rightarrow> (string \<times> string) list \<times> string list" where
  "match_template fs base t acc =
     (case find_parent fs base t of
        None \<Rightarrow> (fst acc, snd acc @ [''WARNING: No parent file found for '' @ t])
      | Some parent_file \<Rightarrow>
          if parent_file = [] then
            (fst acc, snd acc @ [''WARNING: No parent file found for '' @ t])
          else if isfile fs (path_join base parent_file) then
            (AList.update t parent_file (fst acc),
             snd acc @ [''Matched: '' @ t @ '' -> '' @ parent_file])
          else
            (fst acc,
             snd acc @ [''WARNING: Parent path '' @ [CHR 0x27] @ parent_file @ [CHR 0x27]
                          @ '' is not a file.'']))"

definition find_parent_files :: "filesystem \<Rightarrow> checker \<Rightarrow> checker \<times> string list" where
  "find_parent_files fs c =
     (let r = fold (match_template fs (base_dir c)) (template_files c)
                ([], [newline # ''Matching template files with parent files...''])
      in (c\<lparr>parent_files := fst r\<rparr>, snd r))"

section \<open>Comparing a template with its parent\<close>

definition keep_line :: "string \<Rightarrow> bool" where
  "keep_line line = (strip line \<noteq> [] \<and> \<not> startswith (strip line) ''#'')"

definition normalized_lines :: "string list \<Rightarrow> string list" where
  "normalized_lines lines = map normalize_line (filter keep_line lines)"

text \<open>The part of \<open>find_missing_lines\<close> after the two files are read: \<open>i\<close> counts the
  normalized parent lines, and \<open>parent_lines[i]\<close> is read from the lines of the file.\<close>

definition compare_lines :: "string list \<Rightarrow> string list \<Rightarrow> string list" where
  "compare_lines template_lines parent_lines =
     (let normalized_template_lines = normalized_lines template_lines;
          normalized_parent_lines = normalized_lines parent_lines;
          template_line_set = set normalized_template_lines
      in concat (map (\<lambda>(i, line).
                   if line \<notin> template_line_set then
                     (if i < length parent_lines then [rstrip (parent_lines ! i)] else [])
                   else [])
                 (enumerate 0 normalized_parent_lines)))"

text \<open>\<open>open(path, 'r', encoding='utf-8', errors='replace')\<close> and \<open>readlines()\<close>.\<close>

definition readlines :: "filesystem \<Rightarrow> string \<Rightarrow> string + string list" where
  "readlines fs p =
     (case fs p of
        Some (Regular r) \<Rightarrow> r
      | Some Directory \<Rightarrow> Inl (''[Errno 21] Is a directory: '' @ [CHR 0x27] @ p @ [CHR 0x27])
      | None \<Rightarrow> Inl (''[Errno 2] No such file or directory: '' @ [CHR 0x27] @ p @ [CHR 0x27]))"

text \<open>The result is the list the method returns and what it prints. An exception raised
  while the files are read is caught, and its text \<open>e\<close> is printed.\<close>

definition find_missing_lines ::
  "filesystem \<Rightarrow> checker \<Rightarrow> string \<Rightarrow> string \<Rightarrow> string list \<times> string list" where
  "find_missing_lines fs c template_file parent_file =
     (let template_path = path_join (base_dir c) template_file;
          parent_path = path_join (base_dir c) parent_file
      in if \<not> isfile fs template_path then
           ([], [''ERROR: Template path '' @ [CHR 0x27] @ template_path @ [CHR 0x27]
                   @ '' is not a file.''])
         else if \<not> isfile fs parent_path then
           ([], [''ERROR: Parent path '' @ [CHR 0x27] @ parent_path @ [CHR 0x27]
                   @ '' is not a file.''])
         else
           (case readlines fs template_path of
              Inl e \<Rightarrow>
                ([], [''ERROR: Failed to compare '' @ [CHR 0x27] @ template_file @ [CHR 0x27]
                        @ '' and '' @ [CHR 0x27] @ parent_file @ [CHR 0x27] @ '': '' @ e])
            | Inr template_lines \<Rightarrow>
                (case readlines fs parent_path of
                   Inl e \<Rightarrow>
                     ([], [''ERROR: Failed to compare '' @ [CHR 0x27] @ template_file @ [CHR 0x27]
                             @ '' and '' @ [CHR 0x27] @ parent_file @ [CHR 0x27] @ '': '' @ e])
                 | Inr parent_lines \<Rightarrow> (compare_lines template_lines parent_lines, []))))"

section \<open>Analysis of all pairs\<close>

fun str_nat :: "nat \<Rightarrow> string" where
  "str_nat n =
     (if n < 10 then [char_of (48 + n)] else str_nat (n div 10) @ [char_of (48 + n mod 10)])"

declare str_nat.simps [simp del]

definition analyze_pair ::
  "filesystem \<Rightarrow> checker \<Rightarrow> string \<times> string \<Rightarrow> (string \<times> string list) list \<times> string list
     \<Rightarrow> (string \<times> string list) list \<times> string list" where
  "analyze_pair fs c pair acc =
     (let template_file = fst pair;
          parent_file = snd pair;
          r = find_missing_lines fs c template_file parent_file;
          lines = fst r;
          out = snd acc @ [''Comparing: '' @ template_file @ '' <-> '' @ parent_file] @ snd r
      in if lines \<noteq> [] then
           (AList.update template_file lines (fst acc),
            out @ (if verbose c then
                     [''  Found '' @ str_nat (length lines) @ '' missing lines'']
                       @ map (\<lambda>line. ''  - '' @ line) (take 5 lines)
                       @ (if length lines > 5
                          then [''  ... and '' @ str_nat (length lines - 5) @ '' more'']
                          else [])
                   else []))
         else (fst acc, out @ [''  No missing lines found'']))"

definition analyze_all_files :: "filesystem \<Rightarrow> checker \<Rightarrow> checker \<times> string list" where
  "analyze_all_files fs c =
     (let r = fold (analyze_pair fs c) (parent_files c)
                ([], [newline # ''Comparing template files with parent files...''])
      in (c\<lparr>differences := fst r\<rparr>, snd r))"

section \<open>The report\<close>

fun join :: "string \<Rightarrow> string list \<Rightarrow> string" where
  "join sep [] = []"
| "join sep [x] = x"
| "join sep (x # y # ys) = x @ sep @ join sep (y # ys)"

definition report_header :: "checker \<Rightarrow> string \<Rightarrow> string list" where
  "report_header c timestamp =
     [''# Template File Missing Content Report'', [],
      ''Generated: '' @ timestamp, [],
      ''Base directory: '' @ base_dir c,
      ''Template files found: '' @ str_nat (length (template_files c)),
      ''Parent files matched: '' @ str_nat (length (parent_files c)),
      ''Files with missing content: '' @ str_nat (length (differences c)),
      []]"

text \<open>The body of the loop over \<open>self.differences.items()\<close>; \<open>None\<close> is the \<open>KeyError\<close> of
  \<open>self.parent_files[template_file]\<close>.\<close>

definition report_section :: "checker \<Rightarrow> string \<times> string list \<Rightarrow> string list option" where
  "report_section c entry =
     (case map_of (parent_files c) (fst entry) of
        None \<Rightarrow> None
      | Some parent_file \<Rightarrow>
          Some ([''### '' @ fst entry, ''*Compared to: '' @ parent_file @ ''*'', []]
                @ (if snd entry = [] then [''No missing content found.'']
                   else [''Missing lines that should be added to the template:'', ''```'']
                        @ snd entry @ [''```''])
                @ [[]]))"

definition generate_report :: "checker \<Rightarrow> string \<Rightarrow> string option" where
  "generate_report c timestamp =
     (if differences c = [] then
        Some (join [newline]
          (report_header c timestamp
           @ [''## Summary'', [],
              ''No missing content found in template files compared to their parent files.'']))
      else
        (case those (map (report_section c) (differences c)) of
           None \<Rightarrow> None
         | Some sections \<Rightarrow>
             Some (join [newline]
               (report_header c timestamp @ [''## Missing Content'', []] @ concat sections))))"

section \<open>Running the checker\<close>

text \<open>\<open>TemplateChecker.run\<close>: the report, the checker afterwards and the output.\<close>

definition run ::
  "string list \<Rightarrow> walk \<Rightarrow> filesystem \<Rightarrow> string \<Rightarrow> checker
     \<Rightarrow> string option \<times> checker \<times> string list" where
  "run excl w fs timestamp c =
     (let r1 = find_template_files excl w c;
          r2 = find_parent_files fs (fst r1);
          r3 = analyze_all_files fs (fst r2)
      in (generate_report (fst r3) timestamp, fst r3, snd r1 @ snd r2 @ snd r3))"

record args =
  arg_dir :: string
  arg_verbose :: bool
  arg_exclude :: "string list option"

text \<open>
  \<open>main\<close>, up to the report: the first argument is the value of the module variable
  \<open>EXCLUDE_PATTERNS\<close> when \<open>main\<close> is called, and the last component of the result its value
  when \<open>main\<close> returns. \<open>arg_dir\<close> is the directory as an absolute path. Saving or printing
  the report is left out.
\<close>

definition main ::
  "string list \<Rightarrow> args \<Rightarrow> walk \<Rightarrow> filesystem \<Rightarrow> string
     \<Rightarrow> string option \<times> string list" where
  "main excl a w fs timestamp =
     (let excl' = (case arg_exclude a of
                     None \<Rightarrow> excl
                   | Some patterns \<Rightarrow> fold (\<lambda>pattern e. e @ [pattern]) patterns excl);
          checker = init_checker (arg_dir a) (arg_verbose a);
          report = fst (run excl' w fs timestamp checker)
      in (report, excl'))"

section \<open>Example trees\<close>

text \<open>A project with two template/parent pairs: \<open>app.env\<close> starts with a comment line and
  has a line its template lacks; \<open>db.env\<close> cannot be read.\<close>

definition drift_fs :: filesystem where
  "drift_fs p =
     (if p = ''/proj/app.env.template'' then Some (Regular (Inr [''PORT=xxxx'' @ [newline]]))
      else if p = ''/proj/app.env'' then
        Some (Regular (Inr [''# settings'' @ [newline], ''PORT=8080'' @ [newline],
                            ''NEW_FEATURE_FLAG=true'' @ [newline]]))
      else if p = ''/proj/db.env.template'' then Some (Regular (Inr [''DB=x'' @ [newline]]))
      else if p = ''/proj/db.env'' then
        Some (Regular (Inl (''[Errno 13] Permission denied: '' @ [CHR 0x27] @ ''/proj/db.env'' @ [CHR 0x27])))
      else None)"

definition drift_checker :: checker where
  "drift_checker =
     \<lparr>base_dir = ''/proj'', verbose = False,
      template_files = [''db.env.template'', ''db.env.template'', ''app.env.template'', ''app.env.template''],
      parent_files = [(''db.env.template'', ''db.env''), (''app.env.template'', ''app.env'')],
      differences = []\<rparr>"

text \<open>A project where the path that rule 1 derives is a directory and the path that rule 2
  derives is a regular file.\<close>

definition shadow_fs :: filesystem where
  "shadow_fs p =
     (if p = ''/proj/x.y.template'' then Some Directory
      else if p = ''/proj/x.template.y'' then Some (Regular (Inr []))
      else None)"

section \<open>Resolution as an ordered list of rules\<close>

text \<open>The three naming rules as a list tried in order: the candidate is the path derived
  by the first rule whose derived path exists, and it is the parent when it is a regular
  file. \<open>find_parent\<close> and \<open>find_parent_files\<close> above are compared with this.\<close>

definition parent_rules :: "(string \<Rightarrow> string option) list" where
  "parent_rules = [rule1, rule2, rule3]"

definition spec_first_existing :: "filesystem \<Rightarrow> string \<Rightarrow> string \<Rightarrow> string option" where
  "spec_first_existing fs base t =
     find (\<lambda>p. path_exists fs (path_join base p)) (List.map_filter (\<lambda>rule. rule t) parent_rules)"

definition spec_resolve :: "filesystem \<Rightarrow> string \<Rightarrow> string \<Rightarrow> string option" where
  "spec_resolve fs base t =
     (case spec_first_existing fs base t of
        None \<Rightarrow> None
      | Some p \<Rightarrow> if isfile fs (path_join base p) then Some p else None)"

section \<open>Notions used in the proofs about normalization\<close>

text \<open>The placeholder that follows a key made of \<open>[A-Z0-9_]\<close>, by the ending of the key.\<close>

definition placeholder_for :: "string \<Rightarrow> string" where
  "placeholder_for key =
     (if suffix ''_SECRET'' key then ''<SECRET>''
      else if suffix ''_KEY'' key then ''<KEY>''
      else if suffix ''_TOKEN'' key then ''<TOKEN>''
      else if suffix ''_PASSWORD'' key then ''<PASSWORD>''
      else ''<VALUE>'')"

text \<open>The part \<open>\s*"?[a-zA-Z0-9_]+"?\s*:\s*\<close> of the two patterns for \<open>key: value\<close> lines leaves no
  choice to the matcher. \<open>key_split\<close> computes, without backtracking, the text each of
  its seven items takes and the text after them.\<close>

definition opt_quote :: "string \<Rightarrow> string \<times> string" where
  "opt_quote s = (case s of [] \<Rightarrow> ([], []) | x # xs \<Rightarrow> if x = CHR 0x22 then ([x], xs) else ([], s))"

definition key_split :: "string \<Rightarrow> (string list \<times> string) option" where
  "key_split s =
     (let w1 = takeWhile isspace s; s1 = dropWhile isspace s;
          q1 = fst (opt_quote s1); s2 = snd (opt_quote s1);
          w = takeWhile (in_cls Word) s2; s3 = dropWhile (in_cls Word) s2;
          q2 = fst (opt_quote s3); s4 = snd (opt_quote s3);
          w2 = takeWhile isspace s4; s5 = dropWhile isspace s4
      in if w = [] then None
         else (case s5 of
                 [] \<Rightarrow> None
               | x # s6 \<Rightarrow>
                   if x = CHR '':''
                   then Some ([w1, q1, w, q2, w2, [x], takeWhile isspace s6], dropWhile isspace s6)
                   else None))"

text \<open>The result of a match after the items that matched \<open>ms\<close>.\<close>

definition glue :: "string list \<Rightarrow> (string list \<times> string) option \<Rightarrow> (string list \<times> string) option" where
  "glue ms r = (case r of None \<Rightarrow> None | Some (ms', rest) \<Rightarrow> Some (ms @ ms', rest))"

text \<open>The two substitutions for \<open>key: value\<close> lines, and what follows the key in their
  patterns.\<close>

definition json_sub :: "string \<Rightarrow> string" where
  "json_sub s = re_sub json_string_pattern 7 (CHR 0x22 # ''<VALUE>'' @ [CHR 0x22]) s"

definition number_sub :: "string \<Rightarrow> string" where
  "number_sub s = re_sub json_number_pattern 7 ''<NUMBER>'' s"

definition tail_string :: "item list" where
  "tail_string = [One (Lit CHR 0x22), Star NotQuote, One (Lit CHR 0x22)]"

definition tail_number :: "item list" where
  "tail_number = [Plus Digit]"

text \<open>A text with no whitespace at either end.\<close>

definition stripped :: "string \<Rightarrow> bool" where
  "stripped u = (u = [] \<or> (\<not> isspace (hd u) \<and> \<not> isspace (last u)))"

text \<open>A text in which none of the four markers of the rules for secrets occurs.\<close>

definition marker_free :: "string \<Rightarrow> bool" where
  "marker_free s =
     (\<not> sublist ''_SECRET='' s \<and> \<not> sublist ''_KEY='' s
      \<and> \<not> sublist ''_TOKEN='' s \<and> \<not> sublist ''_PASSWORD='' s)"

text \<open>The substitution for the list items of a Compose file.\<close>

definition compose_sub :: "string \<Rightarrow> string" where
  "compose_sub s = re_sub compose_pattern 6 (''<VALUE>'' @ [CHR 0x22]) s"

text \<open>The four markers of the rules for secrets with their placeholders, and the markers
  that occur in a text.\<close>

definition markers :: "string list" where
  "markers = [''_SECRET='', ''_KEY='', ''_TOKEN='', ''_PASSWORD='']"

definition marker_placeholder :: "string \<Rightarrow> string" where
  "marker_placeholder m =
     (if m = ''_SECRET='' then ''<SECRET>''
      else if m = ''_KEY='' then ''<KEY>''
      else if m = ''_TOKEN='' then ''<TOKEN>''
      else ''<PASSWORD>'')"

definition marker_kinds :: "string \<Rightarrow> string list" where
  "marker_kinds s = filter (\<lambda>m. sublist m s) markers"

text \<open>The four substitutions for secrets, one after the other.\<close>

definition secret_subs :: "string \<Rightarrow> string" where
  "secret_subs s =
     re_sub (secret_pattern ''_PASSWORD='') 11 ''<PASSWORD>''
       (re_sub (secret_pattern ''_TOKEN='') 8 ''<TOKEN>''
          (re_sub (secret_pattern ''_KEY='') 6 ''<KEY>''
             (re_sub (secret_pattern ''_SECRET='') 9 ''<SECRET>'' s)))"

section \<open>Discovery\<close>

lemma count_list_map_filter:
  "count_list (map g (filter P xs)) y = sum_list (map (\<lambda>x. if P x \<and> g x = y then (1::nat) else 0) xs)"
  by (induction xs) simp_all

lemma sum_list_swap_ind:
  "sum_list (map (\<lambda>pat. sum_list (map (\<lambda>f. if M f pat \<and> g f = y then (1::nat) else 0) fs)) ps)
     = sum_list (map (\<lambda>f. if g f = y then length (filter (M f) ps) else 0) fs)"
proof (induction fs)
  case Nil
  show ?case by simp
next
  case (Cons a fs)
  have "sum_list (map (\<lambda>pat. (if M a pat \<and> g a = y then (1::nat) else 0)) ps) = (if g a = y then length (filter (M a) ps) else 0)"
    by (induction ps) simp_all
  then show ?case using Cons by (simp add: sum_list_addf)
qed

lemma count_visited:
  "count_list (visited w) p =
     sum_list (map (\<lambda>(root, files).
        sum_list (map (\<lambda>f. if rel_path root f = p
                            then length (filter (fnmatch f) TEMPLATE_PATTERNS) else 0) files)) w)"
proof (induction w)
  case Nil
  show ?case by (simp add: visited_def)
next
  case (Cons d w)
  obtain root files where d: "d = (root, files)" by (cases d)
  have v: "visited ((root, files) # w) =
     concat (map (\<lambda>pattern. map (rel_path root) (filter (\<lambda>f. fnmatch f pattern) files)) TEMPLATE_PATTERNS)
       @ visited w"
    by (simp add: visited_def)
  have "count_list (concat (map (\<lambda>pattern. map (rel_path root) (filter (\<lambda>f. fnmatch f pattern) files)) TEMPLATE_PATTERNS)) p
      = sum_list (map (\<lambda>pat. sum_list (map (\<lambda>f. if fnmatch f pat \<and> rel_path root f = p then (1::nat) else 0) files)) TEMPLATE_PATTERNS)"
    by (simp add: count_list_concat comp_def count_list_map_filter)
  also have "\<dots> = sum_list (map (\<lambda>f. if rel_path root f = p then length (filter (fnmatch f) TEMPLATE_PATTERNS) else 0) files)"
    by (rule sum_list_swap_ind)
  finally show ?case using Cons by (simp add: v d)
qed

lemma count_list_filter: "count_list (filter P xs) x = (if P x then count_list xs x else 0)"
  by (induction xs) simp_all

lemma run_template_files:
  "template_files (fst (snd (run excl w fs timestamp c)))
     = template_files (fst (find_template_files excl w c))"
  by (simp add: run_def Let_def find_parent_files_def analyze_all_files_def)

text \<open>
  Claim C10. Discovery appends a path once for every inclusion pattern that its file name
  matches. The number of times a path \<open>p\<close> occurs in the list of discovered template files
  is 0 when \<open>p\<close> is excluded, and otherwise the sum, over the files of the walk whose
  relative path is \<open>p\<close>, of the number of patterns of \<open>TEMPLATE_PATTERNS\<close> that match the file
  name. The report prints the length of that list after \<open>Template files found:\<close>, so it
  counts a file once for each pattern it matches.
\<close>

theorem discovery_counts_patterns:
  "count_list (template_files (fst (find_template_files excl w c))) p =
     (if is_excluded_file excl p then 0
      else sum_list (map (\<lambda>(root, files).
             sum_list (map (\<lambda>f. if rel_path root f = p
                                 then length (filter (fnmatch f) TEMPLATE_PATTERNS) else 0) files)) w))
   \<and> template_files (fst (snd (run excl w fs timestamp c)))
       = template_files (fst (find_template_files excl w c))
   \<and> report_header (fst (snd (run excl w fs timestamp c))) timestamp ! 5
       = ''Template files found: ''
           @ str_nat (length (template_files (fst (find_template_files excl w c))))"
  by (simp add: find_template_files_def Let_def count_list_filter count_visited
        run_template_files [unfolded find_template_files_def Let_def] report_header_def)

text \<open>\<open>x.env.template\<close> matches \<open>*.template\<close> and \<open>*.env.template\<close> and is listed twice.\<close>

theorem discovery_counts_patterns_witness:
  "template_files (fst (find_template_files EXCLUDE_PATTERNS [([], [''x.env.template''])] (init_checker ''/proj'' False)))
     = [''x.env.template'', ''x.env.template'']
   \<and> count_list (template_files (fst (find_template_files EXCLUDE_PATTERNS [([], [''x.env.template''])] (init_checker ''/proj'' False)))) ''x.env.template'' = 2
   \<and> report_header (fst (snd (run EXCLUDE_PATTERNS [([], [''x.env.template''])] (\<lambda>p. None)
          ''2024-01-01 00:00:00'' (init_checker ''/proj'' False)))) ''2024-01-01 00:00:00'' ! 5
       = ''Template files found: 2''"
proof -
  have a: "template_files (fst (find_template_files EXCLUDE_PATTERNS [([], [''x.env.template''])] (init_checker ''/proj'' False)))
     = [''x.env.template'', ''x.env.template'']" by code_simp
  have b: "is_excluded_file EXCLUDE_PATTERNS ''x.env.template'' = False" by code_simp
  have c: "length (filter (fnmatch ''x.env.template'') TEMPLATE_PATTERNS) = 2" by code_simp
  have d: "rel_path [] ''x.env.template'' = ''x.env.template''" by (simp add: rel_path_def)
  have e: "str_nat (length [''x.env.template'', ''x.env.template'']) = ''2''" by code_simp
  note t = discovery_counts_patterns [of EXCLUDE_PATTERNS "[([], [''x.env.template''])]" "init_checker ''/proj'' False"
                 "''x.env.template''" "\<lambda>p. None" "''2024-01-01 00:00:00''"]
  from t have "count_list (template_files (fst (find_template_files EXCLUDE_PATTERNS [([], [''x.env.template''])] (init_checker ''/proj'' False)))) ''x.env.template''
      = (if is_excluded_file EXCLUDE_PATTERNS ''x.env.template'' then 0
      else sum_list (map (\<lambda>(root, files).
             sum_list (map (\<lambda>f. if rel_path root f = ''x.env.template''
                                 then length (filter (fnmatch f) TEMPLATE_PATTERNS) else 0) files)) [([], [''x.env.template''])]))"
    by blast
  then have n: "count_list (template_files (fst (find_template_files EXCLUDE_PATTERNS [([], [''x.env.template''])] (init_checker ''/proj'' False)))) ''x.env.template'' = 2"
    unfolding b by (simp only: list.map prod.case d c if_True if_False sum_list.Cons sum_list.Nil) simp
  from t have "report_header (fst (snd (run EXCLUDE_PATTERNS [([], [''x.env.template''])] (\<lambda>p. None)
          ''2024-01-01 00:00:00'' (init_checker ''/proj'' False)))) ''2024-01-01 00:00:00'' ! 5
       = ''Template files found: ''
           @ str_nat (length (template_files (fst (find_template_files EXCLUDE_PATTERNS [([], [''x.env.template''])] (init_checker ''/proj'' False)))))"
    by blast
  then have r: "report_header (fst (snd (run EXCLUDE_PATTERNS [([], [''x.env.template''])] (\<lambda>p. None)
          ''2024-01-01 00:00:00'' (init_checker ''/proj'' False)))) ''2024-01-01 00:00:00'' ! 5
       = ''Template files found: 2''"
    unfolding a e by simp
  from a n r show ?thesis by blast
qed

text \<open>
  Claim C7. Exclusion dominates inclusion: a relative path that matches one of the
  exclusion patterns in effect is not among the discovered template files, whatever
  inclusion patterns its file name matches.
\<close>

theorem exclusion_dominates:
  "is_excluded_file excl p \<Longrightarrow> p \<notin> set (template_files (fst (find_template_files excl w c)))"
  by (simp add: find_template_files_def Let_def)

text \<open>\<open>app/config.template.js\<close> matches the inclusion pattern \<open>*.template.*\<close> and the
  exclusion pattern \<open>**/config.template.js\<close>: it is reached by the loops and dropped.\<close>

theorem exclusion_dominates_witness:
  "is_excluded_file EXCLUDE_PATTERNS ''app/config.template.js''
   \<and> ''app/config.template.js'' \<in> set (visited [(''app'', [''config.template.js''])])
   \<and> ''app/config.template.js'' \<notin> set (template_files (fst (find_template_files EXCLUDE_PATTERNS
          [(''app'', [''config.template.js''])] (init_checker ''/proj'' False))))"
proof -
  have h: "is_excluded_file EXCLUDE_PATTERNS ''app/config.template.js''" by code_simp
  have v: "''app/config.template.js'' \<in> set (visited [(''app'', [''config.template.js''])])" by code_simp
  from exclusion_dominates [OF h] h v show ?thesis by blast
qed

section \<open>The exclusion patterns across runs\<close>

text \<open>
  Claim C3 says that the additional exclusion patterns of one run leave the default list
  unchanged for later runs in the same process. \<open>main\<close> appends them to the module variable
  \<open>EXCLUDE_PATTERNS\<close> itself, so the variable still holds them when \<open>main\<close> returns, and a
  later call of \<open>main\<close> excludes by them too. After a run with
  \<open>--exclude '*.env.template'\<close>, a run without \<open>--exclude\<close> over a tree that holds
  \<open>x.env.template\<close> discovers nothing, where the same run from the initial value of the
  variable discovers the file, and the two reports differ.
\<close>

theorem main_extends_exclude_patterns:
  "snd (main excl a w fs timestamp) = excl @ (case arg_exclude a of None \<Rightarrow> [] | Some patterns \<Rightarrow> patterns)
   \<and> snd (main EXCLUDE_PATTERNS
            \<lparr>arg_dir = ''/proj'', arg_verbose = False, arg_exclude = Some [''*.env.template'']\<rparr>
            [([], [''x.env.template''])] (\<lambda>p. None) ''t1'')
       = EXCLUDE_PATTERNS @ [''*.env.template'']
   \<and> template_files (fst (snd (run (EXCLUDE_PATTERNS @ [''*.env.template''])
          [([], [''x.env.template''])] (\<lambda>p. None) ''t2'' (init_checker ''/proj'' False)))) = []
   \<and> template_files (fst (snd (run EXCLUDE_PATTERNS
          [([], [''x.env.template''])] (\<lambda>p. None) ''t2'' (init_checker ''/proj'' False))))
       = [''x.env.template'', ''x.env.template'']
   \<and> fst (main (snd (main EXCLUDE_PATTERNS
                   \<lparr>arg_dir = ''/proj'', arg_verbose = False, arg_exclude = Some [''*.env.template'']\<rparr>
                   [([], [''x.env.template''])] (\<lambda>p. None) ''t1''))
            \<lparr>arg_dir = ''/proj'', arg_verbose = False, arg_exclude = None\<rparr>
            [([], [''x.env.template''])] (\<lambda>p. None) ''t2'')
     \<noteq> fst (main EXCLUDE_PATTERNS
            \<lparr>arg_dir = ''/proj'', arg_verbose = False, arg_exclude = None\<rparr>
            [([], [''x.env.template''])] (\<lambda>p. None) ''t2'')"
proof -
  have fold_app: "fold (\<lambda>pattern e. e @ [pattern]) ps e = e @ ps" for ps e :: "string list"
    by (induction ps arbitrary: e) simp_all
  have g: "snd (main excl a w fs timestamp) = excl @ (case arg_exclude a of None \<Rightarrow> [] | Some patterns \<Rightarrow> patterns)"
    for excl a w fs timestamp
    by (simp add: main_def Let_def fold_app split: option.splits)
  have g1: "snd (main EXCLUDE_PATTERNS
            \<lparr>arg_dir = ''/proj'', arg_verbose = False, arg_exclude = Some [''*.env.template'']\<rparr>
            [([], [''x.env.template''])] (\<lambda>p. None) ''t1'')
       = EXCLUDE_PATTERNS @ [''*.env.template'']"
    by (simp add: g)
  have r1: "template_files (fst (snd (run (EXCLUDE_PATTERNS @ [''*.env.template''])
          [([], [''x.env.template''])] (\<lambda>p. None) ''t2'' (init_checker ''/proj'' False)))) = []"
    by code_simp
  have r2: "template_files (fst (snd (run EXCLUDE_PATTERNS
          [([], [''x.env.template''])] (\<lambda>p. None) ''t2'' (init_checker ''/proj'' False))))
       = [''x.env.template'', ''x.env.template'']"
    by code_simp
  have d: "fst (main (snd (main EXCLUDE_PATTERNS
                   \<lparr>arg_dir = ''/proj'', arg_verbose = False, arg_exclude = Some [''*.env.template'']\<rparr>
                   [([], [''x.env.template''])] (\<lambda>p. None) ''t1''))
            \<lparr>arg_dir = ''/proj'', arg_verbose = False, arg_exclude = None\<rparr>
            [([], [''x.env.template''])] (\<lambda>p. None) ''t2'')
     \<noteq> fst (main EXCLUDE_PATTERNS
            \<lparr>arg_dir = ''/proj'', arg_verbose = False, arg_exclude = None\<rparr>
            [([], [''x.env.template''])] (\<lambda>p. None) ''t2'')"
    by code_simp
  from g [of excl a w fs timestamp] g1 r1 r2 d show ?thesis by blast
qed

section \<open>Parent resolution\<close>

lemma grow_Some: "grow x r = Some (ms, rest) \<Longrightarrow> ms \<noteq> [] \<and> hd ms \<noteq> []"
  by (auto simp add: grow_def split: option.splits list.splits)

lemma rmatch_Plus_nonempty: "rmatch (Plus c # is) s = Some (ms, rest) \<Longrightarrow> group ms 0 1 \<noteq> []"
proof (cases s)
  case Nil
  assume "rmatch (Plus c # is) s = Some (ms, rest)"
  with Nil show ?thesis by simp
next
  case (Cons x xs)
  assume "rmatch (Plus c # is) s = Some (ms, rest)"
  with Cons have "grow x (rmatch (Star c # is) xs) = Some (ms, rest)"
    by (simp split: if_splits)
  from grow_Some [OF this] show ?thesis
    by (cases ms) (simp_all add: group_def)
qed

lemma rule1_nonempty: "rule1 t = Some p \<Longrightarrow> p \<noteq> []"
  by (auto simp add: rule1_def split: option.splits dest: rmatch_Plus_nonempty)

lemma rule2_nonempty: "rule2 t = Some p \<Longrightarrow> p \<noteq> []"
  by (auto simp add: rule2_def split: option.splits dest: rmatch_Plus_nonempty)

lemma rule3_nonempty: "rule3 t = Some p \<Longrightarrow> p \<noteq> []"
  by (auto simp add: rule3_def split: option.splits)

lemma find_parent_spec: "find_parent fs base t = spec_first_existing fs base t"
proof -
  have t1: "truthy (Some p)" if "rule1 t = Some p" for p using rule1_nonempty [OF that] by (simp add: truthy_def)
  have t2: "truthy (Some p)" if "rule2 t = Some p" for p using rule2_nonempty [OF that] by (simp add: truthy_def)
  have n: "\<not> truthy None" by (simp add: truthy_def)
  show ?thesis
    by (cases "rule1 t"; cases "rule2 t"; cases "rule3 t")
       (simp_all add: find_parent_def spec_first_existing_def parent_rules_def List.map_filter_simps
                      try_rule_def Let_def t1 t2 n)
qed

lemma match_template_fst:
  "map_of (fst (match_template fs base t acc)) =
     (case spec_resolve fs base t of
        None \<Rightarrow> map_of (fst acc)
      | Some p \<Rightarrow> (map_of (fst acc))(t \<mapsto> p))"
proof -
  have ne: "p \<noteq> []" if "spec_first_existing fs base t = Some p" for p
  proof -
    from that have "p \<in> set (List.map_filter (\<lambda>rule. rule t) parent_rules)"
      unfolding spec_first_existing_def by (auto simp add: find_Some_iff)
    then have "rule1 t = Some p \<or> rule2 t = Some p \<or> rule3 t = Some p"
      by (auto simp add: parent_rules_def List.map_filter_simps split: option.splits)
    then show ?thesis using rule1_nonempty rule2_nonempty rule3_nonempty by blast
  qed
  show ?thesis
    by (cases "spec_first_existing fs base t")
       (auto simp add: match_template_def find_parent_spec spec_resolve_def update_conv' dest: ne)
qed

lemma fold_match_template:
  "map_of (fst (fold (match_template fs base) ts acc)) t =
     (if t \<in> set ts \<and> spec_resolve fs base t \<noteq> None then spec_resolve fs base t
      else map_of (fst acc) t)"
proof (induction ts arbitrary: acc)
  case Nil
  show ?case by simp
next
  case (Cons u ts)
  show ?case
    by (cases "spec_resolve fs base u") (auto simp add: Cons.IH match_template_fst)
qed

lemma spec_first_existing_nonempty: "spec_first_existing fs base t = Some p \<Longrightarrow> p \<noteq> []"
proof -
  assume "spec_first_existing fs base t = Some p"
  then have "p \<in> set (List.map_filter (\<lambda>rule. rule t) parent_rules)"
    unfolding spec_first_existing_def by (auto simp add: find_Some_iff)
  then have "rule1 t = Some p \<or> rule2 t = Some p \<or> rule3 t = Some p"
    by (auto simp add: parent_rules_def List.map_filter_simps split: option.splits)
  then show ?thesis using rule1_nonempty rule2_nonempty rule3_nonempty by blast
qed

lemma match_template_snd:
  "snd (match_template fs base t acc) =
     snd acc @
     [case spec_first_existing fs base t of
        None \<Rightarrow> ''WARNING: No parent file found for '' @ t
      | Some p \<Rightarrow>
          if isfile fs (path_join base p) then ''Matched: '' @ t @ '' -> '' @ p
          else ''WARNING: Parent path '' @ [CHR 0x27] @ p @ [CHR 0x27] @ '' is not a file.'']"
  by (cases "spec_first_existing fs base t")
     (auto simp add: match_template_def find_parent_spec dest: spec_first_existing_nonempty)

lemma fold_match_template_snd:
  "snd (fold (match_template fs base) ts acc) =
     snd acc @
     map (\<lambda>t. case spec_first_existing fs base t of
                 None \<Rightarrow> ''WARNING: No parent file found for '' @ t
               | Some p \<Rightarrow>
                   if isfile fs (path_join base p) then ''Matched: '' @ t @ '' -> '' @ p
                   else ''WARNING: Parent path '' @ [CHR 0x27] @ p @ [CHR 0x27] @ '' is not a file.'')
         ts"
proof (induction ts arbitrary: acc)
  case Nil
  show ?case by simp
next
  case (Cons u ts)
  show ?case by (simp only: fold_simps Cons.IH match_template_snd list.map append_assoc append.simps)
qed

text \<open>
  Claim C2 as stated lets the first rule whose derived path exists and is a regular file
  win, and creates a mapping exactly when some rule derives an existing regular file. For
  the template \<open>x.template.y.template\<close> rule 1 derives \<open>x.y.template\<close>, here a directory, and
  rule 2 derives \<open>x.template.y\<close>, here a regular file: rule 2 is not tried and no mapping
  is created.
\<close>

theorem directory_shadows_later_rule:
  "rule2 ''x.template.y.template'' = Some ''x.template.y''
   \<and> path_exists shadow_fs (path_join ''/proj'' ''x.template.y'')
   \<and> isfile shadow_fs (path_join ''/proj'' ''x.template.y'')
   \<and> rule1 ''x.template.y.template'' = Some ''x.y.template''
   \<and> \<not> isfile shadow_fs (path_join ''/proj'' ''x.y.template'')
   \<and> parent_files (fst (find_parent_files shadow_fs
        ((init_checker ''/proj'' False)\<lparr>template_files := [''x.template.y.template'']\<rparr>))) = []"
  by code_simp

text \<open>
  Claim C2, amended. For every template path the three rules are tried in the order 1, 2,
  3 and the candidate parent is the path derived by the first rule whose derived path
  exists, be it a regular file or not; later rules are not tried once such a rule is
  found. A mapping is created exactly for the discovered templates whose candidate is a
  regular file, and it maps the template to that candidate. For each discovered template,
  in order, one line is printed: \<open>Matched: template -> parent\<close> when the mapping is
  created, \<open>WARNING: Parent path 'candidate' is not a file.\<close> when the candidate exists and is
  not a regular file, and \<open>WARNING: No parent file found for template\<close> when no rule derives
  an existing path.
\<close>

theorem find_parent_files_first_existing:
  "find_parent fs base t = spec_first_existing fs base t
   \<and> map_of (parent_files (fst (find_parent_files fs c))) t =
       (if t \<in> set (template_files c) then spec_resolve fs (base_dir c) t else None)
   \<and> snd (find_parent_files fs c) =
       (newline # ''Matching template files with parent files...'')
       # map (\<lambda>t. case spec_first_existing fs (base_dir c) t of
                     None \<Rightarrow> ''WARNING: No parent file found for '' @ t
                   | Some p \<Rightarrow>
                       if isfile fs (path_join (base_dir c) p) then ''Matched: '' @ t @ '' -> '' @ p
                       else ''WARNING: Parent path '' @ [CHR 0x27] @ p @ [CHR 0x27] @ '' is not a file.'')
             (template_files c)"
proof -
  have a: "map_of (parent_files (fst (find_parent_files fs c))) t =
       (if t \<in> set (template_files c) then spec_resolve fs (base_dir c) t else None)"
    by (auto simp add: find_parent_files_def Let_def fold_match_template)
  have b: "snd (find_parent_files fs c) =
       (newline # ''Matching template files with parent files...'')
       # map (\<lambda>t. case spec_first_existing fs (base_dir c) t of
                     None \<Rightarrow> ''WARNING: No parent file found for '' @ t
                   | Some p \<Rightarrow>
                       if isfile fs (path_join (base_dir c) p) then ''Matched: '' @ t @ '' -> '' @ p
                       else ''WARNING: Parent path '' @ [CHR 0x27] @ p @ [CHR 0x27] @ '' is not a file.'')
             (template_files c)"
    by (simp add: find_parent_files_def Let_def fold_match_template_snd)
  from a b find_parent_spec [of fs base t] show ?thesis by (intro conjI)
qed

text \<open>For \<open>x.template.y.template\<close> in the tree above the candidate is the directory
  \<open>x.y.template\<close>: the template has no mapping and the warning names the directory.\<close>

theorem find_parent_files_first_existing_witness:
  "find_parent shadow_fs ''/proj'' ''x.template.y.template'' = Some ''x.y.template''
   \<and> spec_first_existing shadow_fs ''/proj'' ''x.template.y.template'' = Some ''x.y.template''
   \<and> map_of (parent_files (fst (find_parent_files shadow_fs
        ((init_checker ''/proj'' False)\<lparr>template_files := [''x.template.y.template'']\<rparr>))))
        ''x.template.y.template'' = None
   \<and> snd (find_parent_files shadow_fs
        ((init_checker ''/proj'' False)\<lparr>template_files := [''x.template.y.template'']\<rparr>))
       = [newline # ''Matching template files with parent files...'',
          ''WARNING: Parent path '' @ [CHR 0x27] @ ''x.y.template'' @ [CHR 0x27] @ '' is not a file.'']"
proof -
  have s: "spec_first_existing shadow_fs ''/proj'' ''x.template.y.template'' = Some ''x.y.template''"
    by code_simp
  have r: "spec_resolve shadow_fs ''/proj'' ''x.template.y.template'' = None" by code_simp
  have f: "\<not> isfile shadow_fs (path_join ''/proj'' ''x.y.template'')" by code_simp
  have b: "base_dir ((init_checker ''/proj'' False)\<lparr>template_files := [''x.template.y.template'']\<rparr>) = ''/proj''"
    by (simp add: init_checker_def)
  have t: "template_files ((init_checker ''/proj'' False)\<lparr>template_files := [''x.template.y.template'']\<rparr>)
      = [''x.template.y.template'']"
    by simp
  note inst = find_parent_files_first_existing [of shadow_fs "''/proj''" "''x.template.y.template''"
              "(init_checker ''/proj'' False)\<lparr>template_files := [''x.template.y.template'']\<rparr>"]
  from inst s have c1: "find_parent shadow_fs ''/proj'' ''x.template.y.template'' = Some ''x.y.template''"
    by simp
  from inst have "map_of (parent_files (fst (find_parent_files shadow_fs
        ((init_checker ''/proj'' False)\<lparr>template_files := [''x.template.y.template'']\<rparr>))))
        ''x.template.y.template'' = spec_resolve shadow_fs ''/proj'' ''x.template.y.template''"
    by (simp only: b t list.set insert_iff if_True simp_thms)
  with r have c3: "map_of (parent_files (fst (find_parent_files shadow_fs
        ((init_checker ''/proj'' False)\<lparr>template_files := [''x.template.y.template'']\<rparr>))))
        ''x.template.y.template'' = None"
    by simp
  from inst have c4: "snd (find_parent_files shadow_fs
        ((init_checker ''/proj'' False)\<lparr>template_files := [''x.template.y.template'']\<rparr>))
       = [newline # ''Matching template files with parent files...'',
          ''WARNING: Parent path '' @ [CHR 0x27] @ ''x.y.template'' @ [CHR 0x27] @ '' is not a file.'']"
    by (simp only: b t list.map s option.case f if_False simp_thms)
  from c1 s c3 c4 show ?thesis by (intro conjI)
qed

section \<open>Properties of the matcher\<close>

lemma hit_None [simp]: "hit m None = None"
  by (simp add: hit_def)

lemma hit_Some [simp]: "hit m (Some (ms, r)) = Some (m # ms, r)"
  by (simp add: hit_def)

lemma grow_None [simp]: "grow x None = None"
  by (simp add: grow_def)

lemma grow_Some_Cons [simp]: "grow x (Some (m # ms, r)) = Some ((x # m) # ms, r)"
  by (simp add: grow_def)

lemma rmatch_Star_skip:
  "s = [] \<or> \<not> in_cls c (hd s) \<Longrightarrow> rmatch (Star c # is) s = hit [] (rmatch is s)"
  by (cases s) auto

lemma rmatch_Opt_skip:
  "s = [] \<or> \<not> in_cls c (hd s) \<Longrightarrow> rmatch (Opt c # is) s = hit [] (rmatch is s)"
  by (cases s) auto

text \<open>A greedy repetition fails when the rest of the pattern fails after every run of
  characters of the class.\<close>

lemma rmatch_Star_None:
  "(\<And>k. k \<le> length s \<Longrightarrow> \<forall>x\<in>set (take k s). in_cls c x \<Longrightarrow> rmatch is (drop k s) = None)
     \<Longrightarrow> rmatch (Star c # is) s = None"
proof (induction s)
  case Nil
  from Nil [of 0] show ?case by simp
next
  case (Cons x xs)
  have here: "rmatch is (x # xs) = None" using Cons.prems [of 0] by simp
  show ?case
  proof (cases "in_cls c x")
    case True
    have "rmatch (Star c # is) xs = None"
    proof (rule Cons.IH)
      fix k assume "k \<le> length xs" "\<forall>y\<in>set (take k xs). in_cls c y"
      with True Cons.prems [of "Suc k"] show "rmatch is (drop k xs) = None" by simp
    qed
    with here True show ?thesis by simp
  next
    case False
    with here show ?thesis by simp
  qed
qed

lemma rmatch_Plus_None:
  "(\<And>k. 0 < k \<Longrightarrow> k \<le> length s \<Longrightarrow> \<forall>x\<in>set (take k s). in_cls c x \<Longrightarrow> rmatch is (drop k s) = None)
     \<Longrightarrow> rmatch (Plus c # is) s = None"
proof (cases s)
  case Nil
  then show ?thesis by simp
next
  case (Cons x xs)
  assume p: "\<And>k. 0 < k \<Longrightarrow> k \<le> length s \<Longrightarrow> \<forall>x\<in>set (take k s). in_cls c x \<Longrightarrow> rmatch is (drop k s) = None"
  show ?thesis
  proof (cases "in_cls c x")
    case True
    have "rmatch (Star c # is) xs = None"
    proof (rule rmatch_Star_None)
      fix k assume "k \<le> length xs" "\<forall>y\<in>set (take k xs). in_cls c y"
      with True p [of "Suc k"] Cons show "rmatch is (drop k xs) = None" by simp
    qed
    with True Cons show ?thesis by simp
  next
    case False
    with Cons show ?thesis by simp
  qed
qed

text \<open>A greedy repetition takes the run \<open>m\<close> when the rest of the pattern matches after
  it and after no longer run.\<close>

lemma rmatch_Star_longest:
  assumes "\<forall>x\<in>set m. in_cls c x"
    and "rmatch is t = Some (ms, r)"
    and "\<And>k. 0 < k \<Longrightarrow> k \<le> length t \<Longrightarrow> \<forall>x\<in>set (take k t). in_cls c x \<Longrightarrow> rmatch is (drop k t) = None"
  shows "rmatch (Star c # is) (m @ t) = Some (m # ms, r)"
  using assms(1)
proof (induction m)
  case Nil
  show ?case
  proof (cases t)
    case Nil
    with assms(2) show ?thesis by simp
  next
    case (Cons x xs)
    show ?thesis
    proof (cases "in_cls c x")
      case True
      have "rmatch (Star c # is) xs = None"
      proof (rule rmatch_Star_None)
        fix k assume "k \<le> length xs" "\<forall>y\<in>set (take k xs). in_cls c y"
        with True assms(3) [of "Suc k"] Cons show "rmatch is (drop k xs) = None" by simp
      qed
      with True Cons assms(2) show ?thesis by simp
    next
      case False
      with Cons assms(2) show ?thesis by simp
    qed
  qed
next
  case (Cons x m)
  then show ?case by simp
qed

lemma rmatch_Plus_longest:
  assumes "m \<noteq> []" and "\<forall>x\<in>set m. in_cls c x"
    and "rmatch is t = Some (ms, r)"
    and "\<And>k. 0 < k \<Longrightarrow> k \<le> length t \<Longrightarrow> \<forall>x\<in>set (take k t). in_cls c x \<Longrightarrow> rmatch is (drop k t) = None"
  shows "rmatch (Plus c # is) (m @ t) = Some (m # ms, r)"
proof -
  from assms(1) obtain x m' where m: "m = x # m'" by (cases m) auto
  with assms(2) have "\<forall>y\<in>set m'. in_cls c y" and x: "in_cls c x" by simp_all
  from rmatch_Star_longest [OF this(1) assms(3) assms(4)] x m show ?thesis by simp
qed

lemma rmatch_lits:
  "rmatch (lits w @ is) (w @ s) =
     (case rmatch is s of None \<Rightarrow> None | Some (ms, r) \<Rightarrow> Some (map (\<lambda>c. [c]) w @ ms, r))"
  by (induction w) (auto simp add: lits_def split: option.splits)

lemma rmatch_lits_None: "\<not> prefix w s \<Longrightarrow> rmatch (lits w @ is) s = None"
proof (induction w arbitrary: s)
  case Nil
  then show ?case by simp
next
  case (Cons a w)
  show ?case
  proof (cases s)
    case Nil
    then show ?thesis by (simp add: lits_def)
  next
    case (Cons x xs)
    with Cons.prems Cons.IH [of xs] show ?thesis by (auto simp add: lits_def)
  qed
qed

lemma rmatch_dot_star_eol:
  "newline \<notin> set v \<Longrightarrow> rmatch [Star Dot, Eol] v = Some ([v, []], [])"
  using rmatch_Star_longest [of v Dot "[Eol]" "[]" "[[]]" "[]"] by auto

lemma upper_not_special:
  assumes "in_cls Upper x"
  shows "x \<noteq> newline" "\<not> isspace x" "x \<noteq> CHR 0x22" "x \<noteq> CHR ''=''" "x \<noteq> CHR '':''"
    "x \<noteq> CHR ''-''" "in_cls Word x"
  using assms
  by (auto simp add: isupper_def isdigit_def isspace_def islower_def newline_def Let_def)

lemma eq_not_special:
  "\<not> in_cls Upper CHR ''=''" "\<not> in_cls Word CHR ''=''" "\<not> isspace CHR ''=''"
  by (simp_all add: isupper_def isdigit_def isspace_def islower_def Let_def)

lemma unique_split:
  "a \<notin> set xs \<Longrightarrow> a \<notin> set ys \<Longrightarrow> xs @ a # ys = xs' @ a # ys' \<Longrightarrow> xs = xs'"
  by (auto simp add: append_eq_append_conv2 Cons_eq_append_conv append_eq_Cons_conv)

lemma env_match:
  assumes "K \<noteq> []" and "\<forall>x\<in>set K. in_cls Upper x" and "newline \<notin> set v"
  shows "rmatch env_pattern (K @ ''='' @ v) = Some ([K, ''='', v, []], [])"
proof -
  have t: "rmatch [One (Lit CHR ''=''), Star Dot, Eol] (''='' @ v) = Some ([''='', v, []], [])"
    using rmatch_dot_star_eol [OF assms(3)] by simp
  have "rmatch (Plus Upper # [One (Lit CHR ''=''), Star Dot, Eol]) (K @ (''='' @ v))
      = Some (K # [''='', v, []], [])"
  proof (rule rmatch_Plus_longest [OF assms(1) assms(2) t])
    fix k :: nat assume "0 < k" "\<forall>x\<in>set (take k (''='' @ v)). in_cls Upper x"
    then have "in_cls Upper CHR ''=''" by (cases k) simp_all
    then have False by (simp only: eq_not_special)
    then show "rmatch [One (Lit CHR ''=''), Star Dot, Eol] (drop k (''='' @ v)) = None" ..
  qed
  then show ?thesis by (simp add: env_pattern_def)
qed

lemma env_sub:
  assumes "K \<noteq> []" and "\<forall>x\<in>set K. in_cls Upper x" and "newline \<notin> set v"
  shows "re_sub env_pattern 1 ''=<VALUE>'' (K @ ''='' @ v) = K @ ''=<VALUE>''"
  using env_match [OF assms] by (simp add: re_sub_def)

lemma concat_singletons: "concat (map (\<lambda>c. [c]) w) = w"
  by (induction w) simp_all

lemma secret_match:
  assumes "newline \<notin> set K0" and "newline \<notin> set ph"
    and "CHR ''='' \<notin> set u" and "CHR ''='' \<notin> set ph"
  shows "rmatch (secret_pattern (u @ ''='')) (K0 @ (u @ ''='') @ ph)
           = Some (K0 # map (\<lambda>c. [c]) (u @ ''='') @ [ph, []], [])"
proof -
  let ?is = "lits (u @ ''='') @ [Star Dot, Eol]"
  let ?t = "(u @ ''='') @ ph"
  have a: "\<forall>x\<in>set K0. in_cls Dot x" using assms(1) by auto
  have t: "rmatch ?is ?t = Some (map (\<lambda>c. [c]) (u @ ''='') @ [ph, []], [])"
    by (simp only: rmatch_lits rmatch_dot_star_eol [OF assms(2)]) simp
  have "rmatch (Star Dot # ?is) (K0 @ ?t) = Some (K0 # map (\<lambda>c. [c]) (u @ ''='') @ [ph, []], [])"
  proof (rule rmatch_Star_longest [OF a t])
    fix k :: nat assume k: "0 < k" "k \<le> length ?t"
    have "\<not> prefix (u @ ''='') (drop k ?t)"
    proof
      assume "prefix (u @ ''='') (drop k ?t)"
      then obtain rest where "drop k ?t = (u @ ''='') @ rest" by (auto simp add: prefix_def)
      then have "take k ?t @ (u @ ''='') @ rest = ?t" by (metis append_take_drop_id)
      then have "u @ CHR ''='' # ph = (take k ?t @ u) @ CHR ''='' # rest" by simp
      from unique_split [OF assms(3) assms(4) this] have "take k ?t = []" by simp
      with k show False by auto
    qed
    then show "rmatch ?is (drop k ?t) = None" by (rule rmatch_lits_None)
  qed
  then show ?thesis by (simp add: secret_pattern_def)
qed

lemma secret_sub:
  assumes "newline \<notin> set K0" and "newline \<notin> set ph"
    and "CHR ''='' \<notin> set u" and "CHR ''='' \<notin> set ph"
  shows "re_sub (secret_pattern (u @ ''='')) (Suc (Suc (length u))) repl (K0 @ u @ ''='' @ ph)
           = K0 @ u @ ''='' @ repl"
  using secret_match [OF assms] by (simp add: re_sub_def concat_singletons)

lemma secret_no_match:
  assumes "CHR ''='' \<notin> set K" and "CHR ''='' \<notin> set ph" and "\<not> suffix u K"
  shows "rmatch (secret_pattern (u @ ''='')) (K @ ''='' @ ph) = None"
proof -
  let ?is = "lits (u @ ''='') @ [Star Dot, Eol]"
  let ?s = "K @ ''='' @ ph"
  have "rmatch (Star Dot # ?is) ?s = None"
  proof (rule rmatch_Star_None)
    fix k :: nat
    have "\<not> prefix (u @ ''='') (drop k ?s)"
    proof
      assume "prefix (u @ ''='') (drop k ?s)"
      then obtain rest where "drop k ?s = (u @ ''='') @ rest" by (auto simp add: prefix_def)
      then have "take k ?s @ (u @ ''='') @ rest = ?s" by (metis append_take_drop_id)
      then have "K @ CHR ''='' # ph = (take k ?s @ u) @ CHR ''='' # rest" by simp
      from unique_split [OF assms(1) assms(2) this] have "K = take k ?s @ u" .
      then have "suffix u K" by (metis suffixI)
      with assms(3) show False ..
    qed
    then show "rmatch ?is (drop k ?s) = None" by (rule rmatch_lits_None)
  qed
  then show ?thesis by (simp add: secret_pattern_def)
qed

lemma secret_sub_none:
  assumes "CHR ''='' \<notin> set K" and "CHR ''='' \<notin> set ph" and "\<not> suffix u K"
  shows "re_sub (secret_pattern (u @ ''='')) g repl (K @ ''='' @ ph) = K @ ''='' @ ph"
  using secret_no_match [OF assms] by (simp add: re_sub_def)

lemma key_prefix_no_match:
  assumes "K \<noteq> []" and "\<forall>x\<in>set K. in_cls Upper x"
  shows "rmatch (key_prefix @ tail) (K @ ''='' @ ph) = None"
proof -
  let ?after = "[Opt (Lit CHR 0x22), Star Space, One (Lit CHR '':''), Star Space] @ tail"
  from assms(1) obtain x K' where K: "K = x # K'" by (cases K) auto
  with assms(2) have x: "in_cls Upper x" and K': "\<forall>y\<in>set K'. in_cls Upper y" by simp_all
  have stop: "rmatch ?after (y # ys) = None" if "in_cls Upper y \<or> y = CHR ''=''" for y ys
    using that upper_not_special [of y] by (auto simp add: eq_not_special)
  have "rmatch (Star Word # ?after) (K' @ ''='' @ ph) = None"
  proof (rule rmatch_Star_None)
    fix k :: nat
    assume w: "\<forall>y\<in>set (take k (K' @ ''='' @ ph)). in_cls Word y"
    have "k \<le> length K'"
    proof (rule ccontr)
      assume "\<not> k \<le> length K'"
      then have "CHR ''='' \<in> set (take k (K' @ ''='' @ ph))"
        by (simp add: take_Cons' not_le)
      with w show False using eq_not_special(2) by blast
    qed
    then have d: "drop k (K' @ ''='' @ ph) = drop k K' @ CHR ''='' # ph" by simp
    show "rmatch ?after (drop k (K' @ ''='' @ ph)) = None"
    proof (cases "drop k K'")
      case Nil
      show ?thesis unfolding d Nil using stop [of "CHR ''=''" ph] by simp
    next
      case (Cons a list)
      then have "a \<in> set K'" by (metis in_set_dropD list.set_intros(1))
      with K' have "in_cls Upper a" by blast
      then show ?thesis unfolding d Cons using stop [of a "list @ CHR ''='' # ph"] by simp
    qed
  qed
  with x upper_not_special [OF x] show ?thesis
    by (simp add: key_prefix_def K)
qed

lemma compose_no_match:
  assumes "K \<noteq> []" and "\<forall>x\<in>set K. in_cls Upper x"
  shows "rmatch compose_pattern (K @ ''='' @ ph) = None"
proof -
  from assms(1) obtain x K' where K: "K = x # K'" by (cases K) auto
  with assms(2) have x: "in_cls Upper x" by simp
  from upper_not_special [OF x] show ?thesis by (simp add: compose_pattern_def K)
qed

section \<open>Normalization of environment assignments\<close>

text \<open>A line is an environment assignment when, stripped, it is a non-empty key over
  \<open>[A-Z0-9_]\<close>, the sign \<open>=\<close> and a value without newline. (A line read from a file has
  its only newline at the end, where \<open>strip\<close> removes it.)\<close>

lemma suffix_last: "suffix u K \<Longrightarrow> u \<noteq> [] \<Longrightarrow> last K = last u"
  by (auto simp add: suffix_def)

lemma secret_step:
  assumes "\<forall>x\<in>set K. in_cls Upper x"
    and "CHR ''='' \<notin> set ph" and "newline \<notin> set ph" and "CHR ''='' \<notin> set u"
    and "g = Suc (Suc (length u))"
  shows "re_sub (secret_pattern (u @ ''='')) g repl (K @ ''='' @ ph)
           = K @ ''='' @ (if suffix u K then repl else ph)"
proof (cases "suffix u K")
  case True
  then obtain K0 where K: "K = K0 @ u" by (auto simp add: suffix_def)
  have "newline \<notin> set K0" using assms(1) upper_not_special(1) K by auto
  from secret_sub [OF this assms(3) assms(4) assms(2), of repl] True K assms(5) show ?thesis by simp
next
  case False
  have "CHR ''='' \<notin> set K" using assms(1) upper_not_special(4) by blast
  from secret_sub_none [OF this assms(2) False] False show ?thesis by simp
qed

lemma normalize_env_line:
  assumes "strip line = K @ ''='' @ v" and "K \<noteq> []" and "\<forall>x\<in>set K. in_cls Upper x"
    and "newline \<notin> set v"
  shows "normalize_line line = K @ ''='' @ placeholder_for K"
proof -
  define p1 where "p1 = (if suffix ''_SECRET'' K then ''<SECRET>'' else ''<VALUE>'')"
  define p2 where "p2 = (if suffix ''_KEY'' K then ''<KEY>'' else p1)"
  define p3 where "p3 = (if suffix ''_TOKEN'' K then ''<TOKEN>'' else p2)"
  define p4 where "p4 = (if suffix ''_PASSWORD'' K then ''<PASSWORD>'' else p3)"
  have ok1: "CHR ''='' \<notin> set p1" "newline \<notin> set p1" by (simp_all add: p1_def newline_def)
  have ok2: "CHR ''='' \<notin> set p2" "newline \<notin> set p2" using ok1 by (simp_all add: p2_def newline_def)
  have ok3: "CHR ''='' \<notin> set p3" "newline \<notin> set p3" using ok2 by (simp_all add: p3_def newline_def)
  have e0: "re_sub env_pattern 1 ''=<VALUE>'' (strip line) = K @ ''='' @ ''<VALUE>''"
    using env_sub [OF assms(2) assms(3) assms(4)] by (simp add: assms(1))
  have e1: "re_sub (secret_pattern ''_SECRET='') 9 ''<SECRET>'' (K @ ''='' @ ''<VALUE>'') = K @ ''='' @ p1"
    using secret_step [OF assms(3), of "''<VALUE>''" "''_SECRET''" 9 "''<SECRET>''"]
    by (simp add: p1_def newline_def)
  have e2: "re_sub (secret_pattern ''_KEY='') 6 ''<KEY>'' (K @ ''='' @ p1) = K @ ''='' @ p2"
    using secret_step [OF assms(3) ok1, of "''_KEY''" 6 "''<KEY>''"] by (simp add: p2_def)
  have e3: "re_sub (secret_pattern ''_TOKEN='') 8 ''<TOKEN>'' (K @ ''='' @ p2) = K @ ''='' @ p3"
    using secret_step [OF assms(3) ok2, of "''_TOKEN''" 8 "''<TOKEN>''"] by (simp add: p3_def)
  have e4: "re_sub (secret_pattern ''_PASSWORD='') 11 ''<PASSWORD>'' (K @ ''='' @ p3) = K @ ''='' @ p4"
    using secret_step [OF assms(3) ok3, of "''_PASSWORD''" 11 "''<PASSWORD>''"] by (simp add: p4_def)
  have e5: "re_sub json_string_pattern g repl (K @ ''='' @ p4) = K @ ''='' @ p4" for g repl
    using key_prefix_no_match [OF assms(2) assms(3), of "[One (Lit CHR 0x22), Star NotQuote, One (Lit CHR 0x22)]" p4]
    by (simp add: re_sub_def json_string_pattern_def)
  have e6: "re_sub json_number_pattern g repl (K @ ''='' @ p4) = K @ ''='' @ p4" for g repl
    using key_prefix_no_match [OF assms(2) assms(3), of "[Plus Digit]" p4]
    by (simp add: re_sub_def json_number_pattern_def)
  have e7: "re_sub compose_pattern g repl (K @ ''='' @ p4) = K @ ''='' @ p4" for g repl
    using compose_no_match [OF assms(2) assms(3), of p4] by (simp add: re_sub_def)
  have excl: "\<not> (suffix u K \<and> suffix w K)" if "u \<noteq> []" "w \<noteq> []" "last u \<noteq> last w" for u w
    using that suffix_last [of u K] suffix_last [of w K] by auto
  have x1: "\<not> (suffix ''_SECRET'' K \<and> suffix ''_KEY'' K)" by (rule excl) simp_all
  have x2: "\<not> (suffix ''_SECRET'' K \<and> suffix ''_TOKEN'' K)" by (rule excl) simp_all
  have x3: "\<not> (suffix ''_SECRET'' K \<and> suffix ''_PASSWORD'' K)" by (rule excl) simp_all
  have x4: "\<not> (suffix ''_KEY'' K \<and> suffix ''_TOKEN'' K)" by (rule excl) simp_all
  have x5: "\<not> (suffix ''_KEY'' K \<and> suffix ''_PASSWORD'' K)" by (rule excl) simp_all
  have x6: "\<not> (suffix ''_TOKEN'' K \<and> suffix ''_PASSWORD'' K)" by (rule excl) simp_all
  have p: "p4 = placeholder_for K"
    using x1 x2 x3 x4 x5 x6 unfolding p4_def p3_def p2_def p1_def placeholder_for_def by auto
  have "normalize_line line = K @ ''='' @ p4"
    unfolding normalize_line_def Let_def e0 e1 e2 e3 e4 e5 e6 e7 ..
  with p show ?thesis by simp
qed

lemma strip_id: "s \<noteq> [] \<Longrightarrow> \<not> isspace (hd s) \<Longrightarrow> \<not> isspace (last s) \<Longrightarrow> strip s = s"
proof -
  assume a: "s \<noteq> []" "\<not> isspace (hd s)" "\<not> isspace (last s)"
  then have l: "dropWhile isspace s = s" by (cases s) simp_all
  from a have "dropWhile isspace (rev s) = rev s" by (cases "rev s") (simp_all add: hd_rev)
  with l show ?thesis by (simp add: strip_def lstrip_def rstrip_def)
qed

lemma placeholder_shape:
  "placeholder_for K \<noteq> [] \<and> last (placeholder_for K) = CHR ''>'' \<and> newline \<notin> set (placeholder_for K)"
  by (simp add: placeholder_for_def newline_def)

lemma normalize_env_line_twice:
  assumes "strip line = K @ ''='' @ v" and "K \<noteq> []" and "\<forall>x\<in>set K. in_cls Upper x"
    and "newline \<notin> set v"
  shows "normalize_line (normalize_line line) = normalize_line line"
proof -
  have n: "normalize_line line = K @ ''='' @ placeholder_for K"
    using assms by (rule normalize_env_line)
  have "\<not> isspace (hd K)" using assms(2,3) upper_not_special(2) by (cases K) auto
  moreover have "\<not> isspace CHR ''>''" by (simp add: isspace_def)
  ultimately have "strip (K @ ''='' @ placeholder_for K) = K @ ''='' @ placeholder_for K"
    using assms(2) placeholder_shape [of K] by (intro strip_id) (simp_all add: hd_append)
  from normalize_env_line [OF this assms(2) assms(3)] placeholder_shape [of K] n
  show ?thesis by simp
qed

section \<open>Normalization of \<open>key: value\<close> lines\<close>

lemma in_cls_Space: "in_cls Space = isspace"
  by (rule ext) simp

lemma grow_hit: "grow x (hit m r) = hit (x # m) r"
  by (cases r) auto

lemma rmatch_Star_det:
  assumes "\<And>x xs. in_cls c x \<Longrightarrow> rmatch is (x # xs) = None"
  shows "rmatch (Star c # is) s = hit (takeWhile (in_cls c) s) (rmatch is (dropWhile (in_cls c) s))"
proof (induction s)
  case Nil
  show ?case by simp
next
  case (Cons x xs)
  show ?case
  proof (cases "in_cls c x")
    case True
    with assms [of x xs] have "rmatch (Star c # is) (x # xs) = grow x (rmatch (Star c # is) xs)"
      by (cases "grow x (rmatch (Star c # is) xs)") simp_all
    then show ?thesis using True by (simp add: Cons grow_hit)
  next
    case False
    then show ?thesis by simp
  qed
qed

lemma rmatch_Plus_det:
  assumes "\<And>x xs. in_cls c x \<Longrightarrow> rmatch is (x # xs) = None"
  shows "rmatch (Plus c # is) s =
     (if takeWhile (in_cls c) s = [] then None
      else hit (takeWhile (in_cls c) s) (rmatch is (dropWhile (in_cls c) s)))"
proof (cases s)
  case Nil
  then show ?thesis by simp
next
  case (Cons x xs)
  then show ?thesis by (simp add: rmatch_Star_det [OF assms] grow_hit)
qed

lemma rmatch_Opt_det:
  assumes "\<And>x xs. in_cls c x \<Longrightarrow> rmatch is (x # xs) = None"
  shows "rmatch (Opt c # is) s =
     (case s of [] \<Rightarrow> hit [] (rmatch is [])
      | x # xs \<Rightarrow> if in_cls c x then hit [x] (rmatch is xs) else hit [] (rmatch is s))"
proof (cases s)
  case Nil
  then show ?thesis by simp
next
  case (Cons x xs)
  with assms [of x xs] show ?thesis by (cases "rmatch is xs") auto
qed

lemma rmatch_Opt_quote:
  assumes "\<And>xs. rmatch is (CHR 0x22 # xs) = None"
  shows "rmatch (Opt (Lit CHR 0x22) # is) s = hit (fst (opt_quote s)) (rmatch is (snd (opt_quote s)))"
proof -
  have "rmatch is (x # xs) = None" if "in_cls (Lit CHR 0x22) x" for x xs
    using that assms by simp
  from rmatch_Opt_det [of "Lit CHR 0x22" "is", OF this] show ?thesis
    by (cases s) (simp_all add: opt_quote_def del: rmatch.simps)
qed

lemma hit_glue: "hit m (glue ms r) = glue (m # ms) r"
  by (cases r) (auto simp add: glue_def)

lemma hit_as_glue: "hit m r = glue [m] r"
  by (cases r) (auto simp add: glue_def)

lemma key_prefix_det:
  assumes tail_sp: "\<And>x xs. isspace x \<Longrightarrow> rmatch tail (x # xs) = None"
  shows "rmatch (key_prefix @ tail) s =
     (case key_split s of None \<Rightarrow> None | Some (ms, t) \<Rightarrow> glue ms (rmatch tail t))"
proof -
  let ?Q = "CHR 0x22"
  let ?c6 = "One (Lit CHR '':'') # Star Space # tail"
  let ?c5 = "Star Space # ?c6"
  let ?c4 = "Opt (Lit ?Q) # ?c5"
  let ?c3 = "Plus Word # ?c4"
  let ?c2 = "Opt (Lit ?Q) # ?c3"
  have sp: "\<not> isspace ?Q" "\<not> isspace CHR '':''" "\<not> in_cls Word ?Q" "\<not> in_cls Word CHR '':''"
    by (simp_all add: isspace_def islower_def isupper_def isdigit_def Let_def)
  have wsp: "\<not> isspace x" "x \<noteq> ?Q" "x \<noteq> CHR '':''" if "in_cls Word x" for x
    using that by (auto simp add: isspace_def islower_def isupper_def isdigit_def Let_def)
  have e7: "rmatch (Star Space # tail) u = hit (takeWhile isspace u) (rmatch tail (dropWhile isspace u))" for u
    using rmatch_Star_det [of Space tail u] tail_sp by (simp add: in_cls_Space)
  have f6: "rmatch ?c6 (x # xs) = None" if "isspace x" for x xs
    using that sp by auto
  have e5: "rmatch ?c5 u = hit (takeWhile isspace u) (rmatch ?c6 (dropWhile isspace u))" for u
    using rmatch_Star_det [of Space ?c6 u] f6 by (simp add: in_cls_Space del: rmatch.simps)
  have f5: "rmatch ?c5 (?Q # xs) = None" for xs
    unfolding e5 using sp by simp
  have e4: "rmatch ?c4 u = hit (fst (opt_quote u)) (rmatch ?c5 (snd (opt_quote u)))" for u
    using f5 by (rule rmatch_Opt_quote)
  have f4: "rmatch ?c4 (x # xs) = None" if "in_cls Word x" for x xs
    unfolding e4 e5 using wsp [OF that] by (simp add: opt_quote_def)
  have e3: "rmatch ?c3 u = (if takeWhile (in_cls Word) u = [] then None
       else hit (takeWhile (in_cls Word) u) (rmatch ?c4 (dropWhile (in_cls Word) u)))" for u
    using f4 by (rule rmatch_Plus_det)
  have f3: "rmatch ?c3 (?Q # xs) = None" for xs
    unfolding e3 using sp by simp
  have e2: "rmatch ?c2 u = hit (fst (opt_quote u)) (rmatch ?c3 (snd (opt_quote u)))" for u
    using f3 by (rule rmatch_Opt_quote)
  have f2: "rmatch ?c2 (x # xs) = None" if "in_cls Space x" for x xs
  proof -
    from that have "x \<noteq> ?Q" "\<not> in_cls Word x"
      by (auto simp add: isspace_def islower_def isupper_def isdigit_def Let_def)
    then show ?thesis unfolding e2 e3 by (simp add: opt_quote_def)
  qed
  have e1: "rmatch (Star Space # ?c2) u = hit (takeWhile isspace u) (rmatch ?c2 (dropWhile isspace u))" for u
    using rmatch_Star_det [of Space ?c2 u] f2 by (simp add: in_cls_Space del: rmatch.simps)
  have e6: "rmatch ?c6 u = (case u of [] \<Rightarrow> None | x # xs \<Rightarrow>
        if x = CHR '':'' then hit [x] (rmatch (Star Space # tail) xs) else None)" for u
    by (cases u) simp_all
  have "rmatch (key_prefix @ tail) s = rmatch (Star Space # ?c2) s"
    by (simp add: key_prefix_def)
  also have "\<dots> = (case key_split s of None \<Rightarrow> None | Some (ms, t) \<Rightarrow> glue ms (rmatch tail t))"
  proof -
    define w1 where "w1 = takeWhile isspace s"
    define s1 where "s1 = dropWhile isspace s"
    define q1 where "q1 = fst (opt_quote s1)"
    define s2 where "s2 = snd (opt_quote s1)"
    define w where "w = takeWhile (in_cls Word) s2"
    define s3 where "s3 = dropWhile (in_cls Word) s2"
    define q2 where "q2 = fst (opt_quote s3)"
    define s4 where "s4 = snd (opt_quote s3)"
    define w2 where "w2 = takeWhile isspace s4"
    define s5 where "s5 = dropWhile isspace s4"
    have l: "rmatch (Star Space # ?c2) s = hit w1 (hit q1 (if w = [] then None else hit w (hit q2 (hit w2 (rmatch ?c6 s5)))))"
      unfolding e1 e2 e3 e4 e5 w1_def s1_def q1_def s2_def w_def s3_def q2_def s4_def w2_def s5_def ..
    have k: "key_split s = (if w = [] then None
         else (case s5 of
                 [] \<Rightarrow> None
               | x # s6 \<Rightarrow>
                   if x = CHR '':''
                   then Some ([w1, q1, w, q2, w2, [x], takeWhile isspace s6], dropWhile isspace s6)
                   else None))"
      unfolding key_split_def Let_def w1_def s1_def q1_def s2_def w_def s3_def q2_def s4_def w2_def s5_def ..
    show ?thesis
    proof (cases "w = []")
      case True
      then show ?thesis by (simp add: l k)
    next
      case False
      show ?thesis
      proof (cases s5)
        case Nil
        with False show ?thesis by (simp add: l k)
      next
        case (Cons x s6)
        show ?thesis
        proof (cases "x = CHR '':''")
          case True
          with False Cons show ?thesis
            unfolding l k e6 e7
            by (cases "rmatch tail (dropWhile isspace s6)") (auto simp add: glue_def)
        next
          case False
          with \<open>w \<noteq> []\<close> Cons show ?thesis by (simp add: l k)
        qed
      qed
    qed
  qed
  finally show ?thesis .
qed

lemma takeWhile_stop:
  "\<forall>x\<in>set a. P x \<Longrightarrow> b = [] \<or> \<not> P (hd b) \<Longrightarrow> takeWhile P (a @ b) = a"
  by (cases b) (simp_all add: takeWhile_append2)

lemma dropWhile_stop:
  "\<forall>x\<in>set a. P x \<Longrightarrow> b = [] \<or> \<not> P (hd b) \<Longrightarrow> dropWhile P (a @ b) = b"
  by (cases b) (simp_all add: dropWhile_append2)

lemma opt_quote_split:
  "fst (opt_quote s) @ snd (opt_quote s) = s"
  "fst (opt_quote s) = [] \<or> fst (opt_quote s) = [CHR 0x22]"
  by (cases s; simp add: opt_quote_def)+

lemma opt_quote_other: "s = [] \<or> hd s \<noteq> CHR 0x22 \<Longrightarrow> opt_quote s = ([], s)"
  by (cases s) (simp_all add: opt_quote_def)

lemma opt_quote_quote: "opt_quote (CHR 0x22 # s) = ([CHR 0x22], s)"
  by (simp add: opt_quote_def)

lemma key_split_intro:
  assumes "\<forall>x\<in>set w1. isspace x" and "q1 = [] \<or> q1 = [CHR 0x22]"
    and "w \<noteq> []" and "\<forall>x\<in>set w. in_cls Word x"
    and "q2 = [] \<or> q2 = [CHR 0x22]"
    and "\<forall>x\<in>set w2. isspace x" and "\<forall>x\<in>set w3. isspace x"
    and "t = [] \<or> \<not> isspace (hd t)"
  shows "key_split (w1 @ q1 @ w @ q2 @ w2 @ CHR '':'' # w3 @ t)
           = Some ([w1, q1, w, q2, w2, [CHR '':''], w3], t)"
proof -
  let ?Q = "CHR 0x22"
  have sp: "\<not> isspace ?Q" "\<not> isspace CHR '':''" "\<not> in_cls Word ?Q" "\<not> in_cls Word CHR '':''"
    by (simp_all add: isspace_def islower_def isupper_def isdigit_def Let_def)
  have wsp: "\<not> isspace x" "x \<noteq> ?Q" "x \<noteq> CHR '':''" if "in_cls Word x" for x
    using that by (auto simp add: isspace_def islower_def isupper_def isdigit_def Let_def)
  have snw: "\<not> in_cls Word x" "x \<noteq> ?Q" if "isspace x" for x
    using that by (auto simp add: isspace_def islower_def isupper_def isdigit_def Let_def)
  let ?r5 = "CHR '':'' # w3 @ t"
  let ?r4 = "w2 @ ?r5"
  let ?r3 = "q2 @ ?r4"
  let ?r2 = "w @ ?r3"
  let ?r1 = "q1 @ ?r2"
  from assms(3) obtain a w' where w: "w = a # w'" by (cases w) auto
  with assms(4) have a: "in_cls Word a" by simp
  have h4: "hd ?r4 = CHR '':'' \<or> isspace (hd ?r4)" using assms(6) by (cases w2) simp_all
  have h3: "\<not> in_cls Word (hd ?r3)" "?r3 \<noteq> []"
    using assms(5) h4 sp snw(1) by auto
  have h1: "\<not> isspace (hd ?r1)" "?r1 \<noteq> []"
    using assms(2) w wsp(1) [OF a] sp by auto
  have s1: "takeWhile isspace (w1 @ ?r1) = w1" "dropWhile isspace (w1 @ ?r1) = ?r1"
    using takeWhile_stop [OF assms(1), of ?r1] dropWhile_stop [OF assms(1), of ?r1] h1 by blast+
  have o1: "opt_quote ?r1 = (q1, ?r2)"
    using assms(2) w wsp(2) [OF a] by (auto simp add: opt_quote_quote opt_quote_other)
  have s2: "takeWhile (in_cls Word) ?r2 = w" "dropWhile (in_cls Word) ?r2 = ?r3"
    using takeWhile_stop [OF assms(4), of ?r3] dropWhile_stop [OF assms(4), of ?r3] h3 by blast+
  have o2: "opt_quote ?r3 = (q2, ?r4)"
  proof (cases "q2 = []")
    case True
    have "hd ?r4 \<noteq> ?Q" using h4 snw(2) by auto
    then show ?thesis using True by (simp add: opt_quote_other)
  next
    case False
    with assms(5) show ?thesis by (simp add: opt_quote_quote)
  qed
  have h5: "?r5 = [] \<or> \<not> isspace (hd ?r5)" using sp(2) by simp
  have s3: "takeWhile isspace ?r4 = w2" "dropWhile isspace ?r4 = ?r5"
    using takeWhile_stop [OF assms(6) h5] dropWhile_stop [OF assms(6) h5] by blast+
  have s4: "takeWhile isspace (w3 @ t) = w3" "dropWhile isspace (w3 @ t) = t"
    using takeWhile_stop [OF assms(7) assms(8)] dropWhile_stop [OF assms(7) assms(8)] by blast+
  show ?thesis
    unfolding key_split_def Let_def s1 o1 fst_conv snd_conv s2 o2 s3
    using assms(3) by (simp add: s4)
qed

lemma key_split_elim:
  assumes "key_split s = Some (ms, t)"
  obtains w1 q1 w q2 w2 w3 where
    "ms = [w1, q1, w, q2, w2, [CHR '':''], w3]"
    "s = w1 @ q1 @ w @ q2 @ w2 @ CHR '':'' # w3 @ t"
    "\<forall>x\<in>set w1. isspace x" "q1 = [] \<or> q1 = [CHR 0x22]"
    "w \<noteq> []" "\<forall>x\<in>set w. in_cls Word x"
    "q2 = [] \<or> q2 = [CHR 0x22]"
    "\<forall>x\<in>set w2. isspace x" "\<forall>x\<in>set w3. isspace x"
    "t = [] \<or> \<not> isspace (hd t)"
proof -
  define w1 where "w1 = takeWhile isspace s"
  define s1 where "s1 = dropWhile isspace s"
  define q1 where "q1 = fst (opt_quote s1)"
  define s2 where "s2 = snd (opt_quote s1)"
  define w where "w = takeWhile (in_cls Word) s2"
  define s3 where "s3 = dropWhile (in_cls Word) s2"
  define q2 where "q2 = fst (opt_quote s3)"
  define s4 where "s4 = snd (opt_quote s3)"
  define w2 where "w2 = takeWhile isspace s4"
  define s5 where "s5 = dropWhile isspace s4"
  have k: "key_split s = (if w = [] then None
         else (case s5 of
                 [] \<Rightarrow> None
               | x # s6 \<Rightarrow>
                   if x = CHR '':''
                   then Some ([w1, q1, w, q2, w2, [x], takeWhile isspace s6], dropWhile isspace s6)
                   else None))"
    unfolding key_split_def Let_def w1_def s1_def q1_def s2_def w_def s3_def q2_def s4_def w2_def s5_def ..
  from assms k have wne: "w \<noteq> []" by (auto split: if_splits)
  from assms k wne obtain s6 where s5: "s5 = CHR '':'' # s6"
    and ms: "ms = [w1, q1, w, q2, w2, [CHR '':''], takeWhile isspace s6]"
    and t: "t = dropWhile isspace s6"
    by (auto split: list.splits if_splits)
  have "s = w1 @ s1" by (simp add: w1_def s1_def)
  also have "s1 = q1 @ s2" by (simp add: q1_def s2_def opt_quote_split)
  also have "s2 = w @ s3" by (simp add: w_def s3_def)
  also have "s3 = q2 @ s4" by (simp add: q2_def s4_def opt_quote_split)
  also have "s4 = w2 @ s5" by (simp add: w2_def s5_def)
  also have "s5 = CHR '':'' # takeWhile isspace s6 @ t" by (simp add: s5 t)
  finally have s: "s = w1 @ q1 @ w @ q2 @ w2 @ CHR '':'' # takeWhile isspace s6 @ t" .
  have "t = [] \<or> \<not> isspace (hd t)" unfolding t by (metis hd_dropWhile)
  moreover have "\<forall>x\<in>set w1. isspace x" "\<forall>x\<in>set w. in_cls Word x" "\<forall>x\<in>set w2. isspace x"
    "\<forall>x\<in>set (takeWhile isspace s6). isspace x"
    unfolding w1_def w_def w2_def by (auto dest: set_takeWhileD)
  moreover have "q1 = [] \<or> q1 = [CHR 0x22]" "q2 = [] \<or> q2 = [CHR 0x22]"
    unfolding q1_def q2_def by (rule opt_quote_split(2))+
  ultimately show ?thesis using that [OF ms s] wne by blast
qed

lemma key_split_replace:
  assumes "key_split s = Some (ms, t)" and "t' = [] \<or> \<not> isspace (hd t')"
  shows "key_split (concat ms @ t') = Some (ms, t')"
proof -
  from assms(1) obtain w1 q1 w q2 w2 w3 where
    ms: "ms = [w1, q1, w, q2, w2, [CHR '':''], w3]"
    and c: "\<forall>x\<in>set w1. isspace x" "q1 = [] \<or> q1 = [CHR 0x22]"
    "w \<noteq> []" "\<forall>x\<in>set w. in_cls Word x"
    "q2 = [] \<or> q2 = [CHR 0x22]"
    "\<forall>x\<in>set w2. isspace x" "\<forall>x\<in>set w3. isspace x"
    by (rule key_split_elim)
  from key_split_intro [OF c assms(2)] show ?thesis by (simp add: ms)
qed

lemma key_split_whole:
  assumes "key_split s = Some (ms, t)"
  shows "s = concat ms @ t" "concat ms \<noteq> []" "t = [] \<or> \<not> isspace (hd t)"
    "hd (concat ms) = hd s"
proof -
  from assms obtain w1 q1 w q2 w2 w3 where
    ms: "ms = [w1, q1, w, q2, w2, [CHR '':''], w3]"
    and s: "s = w1 @ q1 @ w @ q2 @ w2 @ CHR '':'' # w3 @ t"
    and t: "t = [] \<or> \<not> isspace (hd t)"
    by (rule key_split_elim)
  show a: "s = concat ms @ t" by (simp add: ms s)
  show b: "concat ms \<noteq> []" by (simp add: ms)
  show "t = [] \<or> \<not> isspace (hd t)" by (rule t)
  show "hd (concat ms) = hd s" using a b by (metis hd_append2)
qed

lemma rmatch_suffix: "rmatch is s = Some (ms, rest) \<Longrightarrow> suffix rest s"
proof (induction "is" s arbitrary: ms rest rule: rmatch.induct)
  case (1 s)
  then show ?case by simp
next
  case (2 "is" s)
  then show ?case by (auto simp add: hit_def split: if_splits option.splits)
next
  case (3 c "is")
  then show ?case by simp
next
  case (4 c "is" x xs)
  then show ?case by (auto simp add: hit_def suffix_Cons split: if_splits option.splits)
next
  case (5 c "is")
  then show ?case by (auto simp add: hit_def split: option.splits)
next
  case (6 c "is" x xs)
  then show ?case by (auto simp add: hit_def suffix_Cons split: if_splits option.splits)
next
  case (7 c "is")
  then show ?case by (auto simp add: hit_def split: option.splits)
next
  case (8 c "is" x xs)
  then show ?case
    by (auto simp add: hit_def grow_def suffix_Cons split: if_splits option.splits list.splits)
next
  case (9 c "is")
  then show ?case by simp
next
  case (10 c "is" x xs)
  then show ?case
    by (auto simp add: hit_def grow_def suffix_Cons split: if_splits option.splits list.splits)
qed

lemma tails_after_space:
  "isspace x \<Longrightarrow> rmatch tail_string (x # xs) = None"
  "isspace x \<Longrightarrow> rmatch tail_number (x # xs) = None"
  by (auto simp add: tail_string_def tail_number_def isspace_def isdigit_def Let_def)

lemma tails_after_placeholder:
  "rmatch tail_string (CHR ''<'' # xs) = None"
  "rmatch tail_number (CHR ''<'' # xs) = None"
  "rmatch tail_number (CHR 0x22 # xs) = None"
  by (simp_all add: tail_string_def tail_number_def isdigit_def Let_def)

lemma tail_string_value:
  "rmatch tail_string (CHR 0x22 # ''<VALUE>'' @ CHR 0x22 # rest)
     = Some ([[CHR 0x22], ''<VALUE>'', [CHR 0x22]], rest)"
  by (simp add: tail_string_def)

lemma sub_by_split:
  assumes "\<And>x xs. isspace x \<Longrightarrow> rmatch tail (x # xs) = None"
  shows "re_sub (key_prefix @ tail) 7 repl s =
     (case key_split s of
        None \<Rightarrow> s
      | Some (ms, t) \<Rightarrow>
          (case rmatch tail t of None \<Rightarrow> s | Some (ms', rest) \<Rightarrow> concat ms @ repl @ rest))"
proof (cases "key_split s")
  case None
  then show ?thesis by (simp add: re_sub_def key_prefix_det [OF assms])
next
  case (Some r)
  obtain ms t where r: "r = (ms, t)" by (cases r)
  from Some r obtain w1 q1 w q2 w2 w3 where "ms = [w1, q1, w, q2, w2, [CHR '':''], w3]"
    by (auto elim: key_split_elim)
  then have "take 7 (ms @ ms') = ms" for ms' :: "string list" by simp
  then show ?thesis
    by (simp add: re_sub_def key_prefix_det [OF assms] Some r glue_def split: option.splits)
qed

lemma json_sub_split:
  "json_sub s =
     (case key_split s of
        None \<Rightarrow> s
      | Some (ms, t) \<Rightarrow>
          (case rmatch tail_string t of None \<Rightarrow> s
           | Some (ms', rest) \<Rightarrow> concat ms @ (CHR 0x22 # ''<VALUE>'' @ [CHR 0x22]) @ rest))"
  unfolding json_sub_def json_string_pattern_def tail_string_def [symmetric]
  by (rule sub_by_split) (rule tails_after_space)

lemma number_sub_split:
  "number_sub s =
     (case key_split s of
        None \<Rightarrow> s
      | Some (ms, t) \<Rightarrow>
          (case rmatch tail_number t of None \<Rightarrow> s
           | Some (ms', rest) \<Rightarrow> concat ms @ ''<NUMBER>'' @ rest))"
  unfolding number_sub_def json_number_pattern_def tail_number_def [symmetric]
  by (rule sub_by_split) (rule tails_after_space)

lemma stripped_strip: "stripped (strip s)"
proof -
  have a: "dropWhile isspace s = [] \<or> \<not> isspace (hd (dropWhile isspace s))"
    by (metis hd_dropWhile)
  have b: "rev (dropWhile isspace (rev t)) = [] \<or> \<not> isspace (last (rev (dropWhile isspace (rev t))))" for t
    by (metis hd_dropWhile last_rev rev_is_Nil_conv)
  have c: "hd (rev (dropWhile isspace (rev t))) = hd t" if "rev (dropWhile isspace (rev t)) \<noteq> []" for t
  proof -
    obtain p where "rev t = takeWhile isspace (rev t) @ dropWhile isspace (rev t)" by simp
    then have "t = rev (dropWhile isspace (rev t)) @ rev (takeWhile isspace (rev t))"
      by (metis rev_append rev_rev_ident)
    with that show ?thesis by (metis hd_append2)
  qed
  show ?thesis
    unfolding stripped_def strip_def lstrip_def rstrip_def
    using a b [of "dropWhile isspace s"] c [of "dropWhile isspace s"]
    by (metis dropWhile.simps(1) rev.simps(1))
qed

lemma strip_stripped: "stripped u \<Longrightarrow> strip u = u"
proof (cases "u = []")
  case True
  then show ?thesis by (simp add: strip_def lstrip_def rstrip_def)
next
  case False
  assume "stripped u"
  with False show ?thesis by (simp add: stripped_def strip_id)
qed

section \<open>Normalization of lines without a marker of a secret\<close>

lemma secret_no_marker:
  assumes "\<not> sublist m s"
  shows "re_sub (secret_pattern m) g repl s = s"
proof -
  have "rmatch (Star Dot # lits m @ [Star Dot, Eol]) s = None"
  proof (rule rmatch_Star_None)
    fix k :: nat
    have "\<not> prefix m (drop k s)"
    proof
      assume "prefix m (drop k s)"
      then obtain r where "drop k s = m @ r" by (auto simp add: prefix_def)
      then have "s = take k s @ m @ r" by (metis append_take_drop_id)
      then have "sublist m s" by (metis sublist_appendI)
      with assms show False ..
    qed
    then show "rmatch (lits m @ [Star Dot, Eol]) (drop k s) = None" by (rule rmatch_lits_None)
  qed
  then show ?thesis by (simp add: re_sub_def secret_pattern_def)
qed

lemma no_sublist_splice:
  assumes "\<not> sublist m u" and "prefix A u" and "suffix C u"
    and "X \<noteq> []" and "hd X \<notin> set m" and "last X \<notin> set m" and "\<not> set m \<subseteq> set X"
  shows "\<not> sublist m (A @ X @ C)"
proof
  assume "sublist m (A @ X @ C)"
  then consider (a) "sublist m A" | (xc) "sublist m (X @ C)"
    | (s1) m1 m2 where "m = m1 @ m2" "suffix m1 A" "prefix m2 (X @ C)"
    by (auto simp add: sublist_append [of m A])
  then show False
  proof cases
    case a
    with assms(1,2) show False by (metis prefix_imp_sublist sublist_order.order.trans)
  next
    case xc
    then consider (x) "sublist m X" | (c) "sublist m C"
      | (s2) m1 m2 where "m = m1 @ m2" "suffix m1 X" "prefix m2 C"
      by (auto simp add: sublist_append [of m X])
    then show False
    proof cases
      case x
      with assms(7) show False by (metis set_mono_sublist)
    next
      case c
      with assms(1,3) show False by (metis suffix_imp_sublist sublist_order.order.trans)
    next
      case s2
      show False
      proof (cases "m1 = []")
        case True
        with s2 have "sublist m C" by auto
        with assms(1,3) show False by (metis suffix_imp_sublist sublist_order.order.trans)
      next
        case False
        with s2(2) assms(4) have "last m1 = last X" by (auto simp add: suffix_def)
        with False s2(1) have "last X \<in> set m" by (metis last_in_set Un_iff set_append)
        with assms(6) show False ..
      qed
    qed
  next
    case s1
    show False
    proof (cases "m2 = []")
      case True
      with s1 have "sublist m A" by auto
      with assms(1,2) show False by (metis prefix_imp_sublist sublist_order.order.trans)
    next
      case False
      from s1(3) obtain zs where "X @ C = m2 @ zs" by (auto simp add: prefix_def)
      with False assms(4) have "hd m2 = hd X" by (metis hd_append2)
      with False s1(1) have "hd X \<in> set m" by (metis hd_in_set Un_iff set_append)
      with assms(5) show False ..
    qed
  qed
qed

lemma marker_free_splice:
  assumes "marker_free u" and "prefix A u" and "suffix C u"
    and "X = CHR 0x22 # ''<VALUE>'' @ [CHR 0x22] \<or> X = ''<NUMBER>'' \<or> X = ''<VALUE>'' @ [CHR 0x22]"
  shows "marker_free (A @ X @ C)"
proof -
  have "\<not> sublist m (A @ X @ C)"
    if "\<not> sublist m u" "m \<in> {''_SECRET='', ''_KEY='', ''_TOKEN='', ''_PASSWORD=''}" for m
  proof (rule no_sublist_splice [OF that(1) assms(2,3)])
    show "X \<noteq> []" using assms(4) by auto
    show "hd X \<notin> set m" using assms(4) that(2) by auto
    show "last X \<notin> set m" using assms(4) that(2) by auto
    show "\<not> set m \<subseteq> set X" using assms(4) that(2) by auto
  qed
  with assms(1) show ?thesis by (simp add: marker_free_def)
qed

lemma marker_free_secrets:
  assumes "marker_free s"
  shows "re_sub (secret_pattern ''_SECRET='') g1 r1 s = s"
    "re_sub (secret_pattern ''_KEY='') g2 r2 s = s"
    "re_sub (secret_pattern ''_TOKEN='') g3 r3 s = s"
    "re_sub (secret_pattern ''_PASSWORD='') g4 r4 s = s"
  using assms by (simp_all add: marker_free_def secret_no_marker)

lemma hit_None_iff: "hit m r = None \<longleftrightarrow> r = None"
  by (cases r) auto

lemma env_det:
  "rmatch env_pattern s =
     (if takeWhile (in_cls Upper) s = [] then None
      else hit (takeWhile (in_cls Upper) s)
             (rmatch [One (Lit CHR ''=''), Star Dot, Eol] (dropWhile (in_cls Upper) s)))"
proof -
  have "rmatch [One (Lit CHR ''=''), Star Dot, Eol] (x # xs) = None" if "in_cls Upper x" for x xs
    using upper_not_special(4) [OF that] by simp
  from rmatch_Plus_det [of Upper "[One (Lit CHR ''=''), Star Dot, Eol]", OF this]
  show ?thesis by (simp add: env_pattern_def)
qed

lemma dot_eol_det:
  "rmatch [Star Dot, Eol] v =
     hit (takeWhile (in_cls Dot) v) (rmatch [Eol] (dropWhile (in_cls Dot) v))"
proof -
  have "rmatch [Eol] (x # xs) = None" if "in_cls Dot x" for x xs
    using that by simp
  from rmatch_Star_det [of Dot "[Eol]", OF this] show ?thesis by simp
qed

lemma env_shape:
  assumes "rmatch env_pattern s \<noteq> None" and "stripped s"
  obtains K v where "s = K @ ''='' @ v" "K \<noteq> []" "\<forall>x\<in>set K. in_cls Upper x" "newline \<notin> set v"
proof -
  define K where "K = takeWhile (in_cls Upper) s"
  define r where "r = dropWhile (in_cls Upper) s"
  have s: "s = K @ r" by (simp add: K_def r_def)
  have e: "rmatch env_pattern s =
      (if K = [] then None else hit K (rmatch [One (Lit CHR ''=''), Star Dot, Eol] r))"
    unfolding K_def r_def by (rule env_det)
  from assms(1) have K: "K \<noteq> []" unfolding e by (cases "K = []") simp_all
  with assms(1) have "hit K (rmatch [One (Lit CHR ''=''), Star Dot, Eol] r) \<noteq> None"
    unfolding e by simp
  then have m: "rmatch [One (Lit CHR ''=''), Star Dot, Eol] r \<noteq> None"
    by (simp only: hit_None_iff not_False_eq_True)
  from m have "\<exists>v. r = CHR ''='' # v" by (cases r) (auto split: if_splits)
  then obtain v where r: "r = CHR ''='' # v" ..
  from m have "hit ''='' (rmatch [Star Dot, Eol] v) \<noteq> None"
    unfolding r by (simp only: rmatch.simps(4) in_cls.simps if_True refl simp_thms)
  then have m2: "rmatch [Star Dot, Eol] v \<noteq> None"
    by (simp only: hit_None_iff not_False_eq_True)
  define b where "b = takeWhile (in_cls Dot) v"
  define d where "d = dropWhile (in_cls Dot) v"
  from m2 have "hit b (rmatch [Eol] d) \<noteq> None" unfolding dot_eol_det b_def d_def .
  then have "rmatch [Eol] d \<noteq> None" by (simp only: hit_None_iff not_False_eq_True)
  then have d: "d = [] \<or> d = [newline]" by (cases "d = [] \<or> d = [newline]") simp_all
  have v: "v = b @ d" by (simp add: b_def d_def)
  have "d = []"
  proof (rule ccontr)
    assume "d \<noteq> []"
    with d have "d = [newline]" by simp
    then have "s = (K @ CHR ''='' # b) @ [newline]" by (simp add: s r v)
    then have "last s = newline" "s \<noteq> []" by simp_all
    moreover have "isspace newline" by (simp add: isspace_def newline_def)
    ultimately show False using assms(2) by (simp add: stripped_def)
  qed
  with v have "v = b" by simp
  then have "newline \<notin> set v" unfolding b_def by (metis in_cls.simps(1) set_takeWhileD)
  moreover have "\<forall>x\<in>set K. in_cls Upper x" unfolding K_def by (auto dest: set_takeWhileD)
  ultimately show ?thesis using that [of K v] s r K by simp
qed

lemma compose_space_det:
  "rmatch compose_pattern s =
     hit (takeWhile isspace s) (rmatch (tl compose_pattern) (dropWhile isspace s))"
proof -
  have "rmatch (tl compose_pattern) (x # xs) = None" if "in_cls Space x" for x xs
  proof -
    from that have "x \<noteq> CHR ''-''" by (auto simp add: isspace_def Let_def)
    then show ?thesis by (simp add: compose_pattern_def)
  qed
  from rmatch_Star_det [of Space "tl compose_pattern", OF this] show ?thesis
    by (simp add: compose_pattern_def in_cls_Space)
qed

lemma compose_no_match_key:
  assumes "key_split s = Some (ms, t)"
  shows "rmatch compose_pattern s = None"
proof -
  from assms obtain w1 q1 w q2 w2 w3 where
    s: "s = w1 @ q1 @ w @ q2 @ w2 @ CHR '':'' # w3 @ t"
    and c: "\<forall>x\<in>set w1. isspace x" "q1 = [] \<or> q1 = [CHR 0x22]" "w \<noteq> []" "\<forall>x\<in>set w. in_cls Word x"
    by (rule key_split_elim)
  let ?r = "q1 @ w @ q2 @ w2 @ CHR '':'' # w3 @ t"
  from c(3) obtain a w' where w: "w = a # w'" by (cases w) auto
  with c(4) have "in_cls Word a" by simp
  then have a: "\<not> isspace a" "a \<noteq> CHR ''-''"
    by (auto simp add: isspace_def islower_def isupper_def isdigit_def Let_def)
  have q: "\<not> isspace CHR 0x22" by (simp add: isspace_def Let_def)
  have h: "?r \<noteq> []" "\<not> isspace (hd ?r)" "hd ?r \<noteq> CHR ''-''"
    using c(2) w a q by auto
  have "dropWhile isspace s = ?r" unfolding s using dropWhile_stop [OF c(1), of ?r] h by blast
  moreover have "rmatch (tl compose_pattern) ?r = None"
    using h by (cases ?r) (simp_all add: compose_pattern_def)
  ultimately show ?thesis by (simp add: compose_space_det)
qed

lemma env_no_match_key:
  assumes "key_split s = Some (ms, t)"
  shows "rmatch env_pattern s = None"
proof -
  from assms obtain w1 q1 w q2 w2 w3 where
    s: "s = w1 @ q1 @ w @ q2 @ w2 @ CHR '':'' # w3 @ t"
    and c: "\<forall>x\<in>set w1. isspace x" "q1 = [] \<or> q1 = [CHR 0x22]" "w \<noteq> []" "\<forall>x\<in>set w. in_cls Word x"
      "q2 = [] \<or> q2 = [CHR 0x22]" "\<forall>x\<in>set w2. isspace x"
    by (rule key_split_elim)
  have nu: "\<not> in_cls Upper x" if "isspace x \<or> x = CHR 0x22 \<or> x = CHR '':''" for x
    using that by (auto simp add: isspace_def isupper_def isdigit_def Let_def)
  have ne: "x \<noteq> CHR ''=''" if "isspace x \<or> x = CHR 0x22 \<or> x = CHR '':'' \<or> in_cls Word x" for x
    using that by (auto simp add: isspace_def islower_def isupper_def isdigit_def Let_def)
  let ?r3 = "q2 @ w2 @ CHR '':'' # w3 @ t"
  have h3: "?r3 \<noteq> []" "isspace (hd ?r3) \<or> hd ?r3 = CHR 0x22 \<or> hd ?r3 = CHR '':''"
    using c(5,6) by (cases w2; auto)+
  show ?thesis
  proof (cases "w1 = [] \<and> q1 = []")
    case False
    then have "s \<noteq> []" "isspace (hd s) \<or> hd s = CHR 0x22"
      using c(1,2) s by (cases w1; auto)+
    then have "takeWhile (in_cls Upper) s = []" using nu by (cases s) auto
    then show ?thesis by (simp add: env_det)
  next
    case True
    then have s': "s = w @ ?r3" using s by simp
    define r where "r = dropWhile (in_cls Upper) s"
    have "r \<noteq> [] \<and> hd r \<noteq> CHR ''=''"
    proof (cases "\<forall>x\<in>set w. in_cls Upper x")
      case True
      then have "r = ?r3" unfolding r_def s' using dropWhile_stop [of w "in_cls Upper" ?r3] h3 nu by blast
      with h3 ne show ?thesis by auto
    next
      case False
      then obtain x where x: "x \<in> set w" "\<not> in_cls Upper x" by blast
      then have d: "dropWhile (in_cls Upper) w \<noteq> []" by (auto simp add: dropWhile_eq_Nil_conv)
      have "r = dropWhile (in_cls Upper) w @ ?r3" unfolding r_def s' using x by (rule dropWhile_append1)
      with d have "r \<noteq> []" "hd r = hd (dropWhile (in_cls Upper) w)" by simp_all
      moreover have "hd (dropWhile (in_cls Upper) w) \<in> set w"
        using d by (metis hd_in_set set_dropWhileD)
      ultimately show ?thesis using c(4) ne by auto
    qed
    then have "rmatch [One (Lit CHR ''=''), Star Dot, Eol] r = None" by (cases r) auto
    then show ?thesis by (simp add: env_det r_def)
  qed
qed

lemma hit_Some_iff: "hit m r = Some (ms, rest) \<longleftrightarrow> (\<exists>ms'. ms = m # ms' \<and> r = Some (ms', rest))"
  by (cases r) auto

lemma rmatch_Star_sound:
  "rmatch (Star c # is) s = Some (ms, rest) \<Longrightarrow>
     \<exists>m ms' t. ms = m # ms' \<and> s = m @ t \<and> (\<forall>x\<in>set m. in_cls c x) \<and> rmatch is t = Some (ms', rest)"
proof (induction s arbitrary: ms)
  case Nil
  then show ?case by (auto simp add: hit_Some_iff)
next
  case (Cons x xs)
  show ?case
  proof (cases "in_cls c x \<and> grow x (rmatch (Star c # is) xs) \<noteq> None")
    case True
    with Cons.prems have g: "grow x (rmatch (Star c # is) xs) = Some (ms, rest)" by auto
    then obtain m0 ms0 where r: "rmatch (Star c # is) xs = Some (m0 # ms0, rest)" and ms: "ms = (x # m0) # ms0"
      by (auto simp add: grow_def split: option.splits list.splits)
    from Cons.IH [OF r] obtain t where "xs = m0 @ t" "\<forall>y\<in>set m0. in_cls c y" "rmatch is t = Some (ms0, rest)"
      by auto
    with True ms show ?thesis by (intro exI [of _ "x # m0"] exI [of _ ms0] exI [of _ t]) simp
  next
    case False
    with Cons.prems have "hit [] (rmatch is (x # xs)) = Some (ms, rest)"
      by (auto split: if_splits option.splits)
    then show ?thesis by (auto simp add: hit_Some_iff)
  qed
qed

lemma rmatch_One_sound:
  "rmatch (One c # is) s = Some (ms, rest) \<Longrightarrow>
     \<exists>x xs ms'. s = x # xs \<and> in_cls c x \<and> ms = [x] # ms' \<and> rmatch is xs = Some (ms', rest)"
  by (cases s) (auto simp add: hit_Some_iff split: if_splits)

lemma rmatch_Eol_sound:
  "rmatch [Eol] s = Some (ms, rest) \<Longrightarrow> ms = [[]] \<and> rest = s \<and> (s = [] \<or> s = [newline])"
  by (auto split: if_splits)

lemma compose_shape:
  assumes "rmatch compose_pattern s = Some (ms, rest)"
  obtains w1 w2 a b where
    "ms = [w1, ''-'', w2, [CHR 0x22], a, ''='', b, [CHR 0x22], []]"
    "s = w1 @ ''-'' @ w2 @ [CHR 0x22] @ a @ ''='' @ b @ [CHR 0x22] @ rest"
    "\<forall>x\<in>set w1. isspace x" "\<forall>x\<in>set w2. isspace x" "CHR 0x22 \<notin> set a"
    "rest = [] \<or> rest = [newline]"
proof -
  let ?Q = "CHR 0x22"
  let ?p8 = "[One (Lit ?Q), Eol]"
  let ?p7 = "Star NotQuote # ?p8"
  let ?p6 = "One (Lit CHR ''='') # ?p7"
  let ?p5 = "Star NotQuote # ?p6"
  let ?p4 = "One (Lit ?Q) # ?p5"
  let ?p3 = "Star Space # ?p4"
  let ?p2 = "One (Lit CHR ''-'') # ?p3"
  have p: "compose_pattern = Star Space # ?p2" by (simp add: compose_pattern_def)
  from assms [unfolded p] obtain w1 ms1 t1 where
    1: "ms = w1 # ms1" "s = w1 @ t1" "\<forall>x\<in>set w1. in_cls Space x" "rmatch ?p2 t1 = Some (ms1, rest)"
    by (blast dest: rmatch_Star_sound)
  from 1(4) obtain x2 t2 ms2 where
    2: "t1 = x2 # t2" "in_cls (Lit CHR ''-'') x2" "ms1 = [x2] # ms2" "rmatch ?p3 t2 = Some (ms2, rest)"
    by (blast dest: rmatch_One_sound)
  from 2(4) obtain w2 ms3 t3 where
    3: "ms2 = w2 # ms3" "t2 = w2 @ t3" "\<forall>x\<in>set w2. in_cls Space x" "rmatch ?p4 t3 = Some (ms3, rest)"
    by (blast dest: rmatch_Star_sound)
  from 3(4) obtain x4 t4 ms4 where
    4: "t3 = x4 # t4" "in_cls (Lit ?Q) x4" "ms3 = [x4] # ms4" "rmatch ?p5 t4 = Some (ms4, rest)"
    by (blast dest: rmatch_One_sound)
  from 4(4) obtain a ms5 t5 where
    5: "ms4 = a # ms5" "t4 = a @ t5" "\<forall>x\<in>set a. in_cls NotQuote x" "rmatch ?p6 t5 = Some (ms5, rest)"
    by (blast dest: rmatch_Star_sound)
  from 5(4) obtain x6 t6 ms6 where
    6: "t5 = x6 # t6" "in_cls (Lit CHR ''='') x6" "ms5 = [x6] # ms6" "rmatch ?p7 t6 = Some (ms6, rest)"
    by (blast dest: rmatch_One_sound)
  from 6(4) obtain b ms7 t7 where
    7: "ms6 = b # ms7" "t6 = b @ t7" "\<forall>x\<in>set b. in_cls NotQuote x" "rmatch ?p8 t7 = Some (ms7, rest)"
    by (blast dest: rmatch_Star_sound)
  from 7(4) obtain x8 t8 ms8 where
    8: "t7 = x8 # t8" "in_cls (Lit ?Q) x8" "ms7 = [x8] # ms8" "rmatch [Eol] t8 = Some (ms8, rest)"
    by (blast dest: rmatch_One_sound)
  from rmatch_Eol_sound [OF 8(4)] have 9: "ms8 = [[]]" "rest = t8" "t8 = [] \<or> t8 = [newline]"
    by simp_all
  have a: "ms = [w1, ''-'', w2, [?Q], a, ''='', b, [?Q], []]"
    using 1(1) 2(2,3) 3(1) 4(2,3) 5(1) 6(2,3) 7(1) 8(2,3) 9(1) by simp
  have b: "s = w1 @ ''-'' @ w2 @ [?Q] @ a @ ''='' @ b @ [?Q] @ rest"
    using 1(2) 2(1,2) 3(2) 4(1,2) 5(2) 6(1,2) 7(2) 8(1,2) 9(2) by simp
  have c: "\<forall>x\<in>set w1. isspace x" "\<forall>x\<in>set w2. isspace x" "?Q \<notin> set a"
    using 1(3) 3(3) 5(3) by auto
  from that [OF a b c] 9 show ?thesis by simp
qed

lemma compose_replay:
  assumes "\<forall>x\<in>set w1. isspace x" and "\<forall>x\<in>set w2. isspace x" and "CHR 0x22 \<notin> set a"
    and "CHR 0x22 \<notin> set b" and "CHR ''='' \<notin> set b" and "rest = [] \<or> rest = [newline]"
  shows "rmatch compose_pattern (w1 @ ''-'' @ w2 @ [CHR 0x22] @ a @ ''='' @ b @ [CHR 0x22] @ rest)
           = Some ([w1, ''-'', w2, [CHR 0x22], a, ''='', b, [CHR 0x22], []], rest)"
proof -
  let ?Q = "CHR 0x22"
  let ?p8 = "[One (Lit ?Q), Eol]"
  let ?p7 = "Star NotQuote # ?p8"
  let ?p6 = "One (Lit CHR ''='') # ?p7"
  let ?p5 = "Star NotQuote # ?p6"
  let ?p4 = "One (Lit ?Q) # ?p5"
  let ?p3 = "Star Space # ?p4"
  let ?p2 = "One (Lit CHR ''-'') # ?p3"
  have nsp: "\<not> isspace ?Q" "\<not> isspace CHR ''-''" by (simp_all add: isspace_def Let_def)
  have e8: "rmatch ?p8 (?Q # rest) = Some ([[?Q], []], rest)" using assms(6) by auto
  have e7: "rmatch ?p7 (b @ ?Q # rest) = Some ([b, [?Q], []], rest)"
  proof (rule rmatch_Star_longest [OF _ e8])
    show "\<forall>x\<in>set b. in_cls NotQuote x" using assms(4) by auto
    fix k :: nat assume "0 < k" "\<forall>x\<in>set (take k (?Q # rest)). in_cls NotQuote x"
    then have False by (cases k) simp_all
    then show "rmatch ?p8 (drop k (?Q # rest)) = None" ..
  qed
  have e6: "rmatch ?p6 (CHR ''='' # b @ ?Q # rest) = Some ([''='', b, [?Q], []], rest)"
    using e7 by simp
  have e5: "rmatch ?p5 (a @ CHR ''='' # b @ ?Q # rest) = Some ([a, ''='', b, [?Q], []], rest)"
  proof (rule rmatch_Star_longest [OF _ e6])
    show "\<forall>x\<in>set a. in_cls NotQuote x" using assms(3) by auto
    fix k :: nat
    assume k: "0 < k" "\<forall>x\<in>set (take k (CHR ''='' # b @ ?Q # rest)). in_cls NotQuote x"
    then obtain j where j: "k = Suc j" by (cases k) auto
    have "j \<le> length b"
    proof (rule ccontr)
      assume "\<not> j \<le> length b"
      then have "?Q \<in> set (take j (b @ ?Q # rest))" by (simp add: take_Cons' not_le)
      with k(2) j show False by auto
    qed
    then have d: "drop k (CHR ''='' # b @ ?Q # rest) = drop j b @ ?Q # rest" using j by simp
    have "hd (drop j b @ ?Q # rest) \<noteq> CHR ''=''"
    proof (cases "drop j b")
      case Nil
      then show ?thesis by simp
    next
      case (Cons y ys)
      then have "y \<in> set b" by (metis in_set_dropD list.set_intros(1))
      with assms(5) Cons show ?thesis by auto
    qed
    then show "rmatch ?p6 (drop k (CHR ''='' # b @ ?Q # rest)) = None"
      unfolding d by (cases "drop j b @ ?Q # rest") auto
  qed
  have e4: "rmatch ?p4 (?Q # a @ CHR ''='' # b @ ?Q # rest) = Some ([[?Q], a, ''='', b, [?Q], []], rest)"
    using e5 by simp
  have e3: "rmatch ?p3 (w2 @ ?Q # a @ CHR ''='' # b @ ?Q # rest)
      = Some ([w2, [?Q], a, ''='', b, [?Q], []], rest)"
  proof (rule rmatch_Star_longest [OF _ e4])
    show "\<forall>x\<in>set w2. in_cls Space x" using assms(2) by simp
    fix k :: nat
    assume "0 < k" "\<forall>x\<in>set (take k (?Q # a @ CHR ''='' # b @ ?Q # rest)). in_cls Space x"
    then have False using nsp by (cases k) simp_all
    then show "rmatch ?p4 (drop k (?Q # a @ CHR ''='' # b @ ?Q # rest)) = None" ..
  qed
  have e2: "rmatch ?p2 (CHR ''-'' # w2 @ ?Q # a @ CHR ''='' # b @ ?Q # rest)
      = Some ([''-'', w2, [?Q], a, ''='', b, [?Q], []], rest)"
    using e3 by simp
  have "rmatch (Star Space # ?p2) (w1 @ CHR ''-'' # w2 @ ?Q # a @ CHR ''='' # b @ ?Q # rest)
      = Some ([w1, ''-'', w2, [?Q], a, ''='', b, [?Q], []], rest)"
  proof (rule rmatch_Star_longest [OF _ e2])
    show "\<forall>x\<in>set w1. in_cls Space x" using assms(1) by simp
    fix k :: nat
    assume "0 < k" "\<forall>x\<in>set (take k (CHR ''-'' # w2 @ ?Q # a @ CHR ''='' # b @ ?Q # rest)). in_cls Space x"
    then have False using nsp by (cases k) simp_all
    then show "rmatch ?p2 (drop k (CHR ''-'' # w2 @ ?Q # a @ CHR ''='' # b @ ?Q # rest)) = None" ..
  qed
  then show ?thesis by (simp add: compose_pattern_def)
qed

lemma rmatch_Plus_sound:
  assumes "rmatch (Plus c # is) s = Some (ms, rest)"
  shows "\<exists>m ms' t. ms = m # ms' \<and> s = m @ t \<and> m \<noteq> [] \<and> (\<forall>x\<in>set m. in_cls c x)
           \<and> rmatch is t = Some (ms', rest)"
proof (cases s)
  case Nil
  with assms show ?thesis by simp
next
  case (Cons x xs)
  with assms have x: "in_cls c x" and g: "grow x (rmatch (Star c # is) xs) = Some (ms, rest)"
    by (auto split: if_splits)
  from g obtain m0 ms0 where r: "rmatch (Star c # is) xs = Some (m0 # ms0, rest)" and ms: "ms = (x # m0) # ms0"
    by (auto simp add: grow_def split: option.splits list.splits)
  from rmatch_Star_sound [OF r] obtain t where "xs = m0 @ t" "\<forall>y\<in>set m0. in_cls c y"
    "rmatch is t = Some (ms0, rest)"
    by auto
  with x ms Cons show ?thesis by (intro exI [of _ "x # m0"] exI [of _ ms0] exI [of _ t]) simp
qed

lemma tail_string_sound:
  assumes "rmatch tail_string t = Some (ms, rest)"
  shows "\<exists>cns. t = cns @ rest \<and> cns \<noteq> [] \<and> last cns = CHR 0x22"
proof -
  from assms [unfolded tail_string_def] obtain x1 t1 ms1 where
    1: "t = x1 # t1" "rmatch [Star NotQuote, One (Lit CHR 0x22)] t1 = Some (ms1, rest)"
    by (blast dest: rmatch_One_sound)
  from 1(2) obtain body ms2 t2 where
    2: "t1 = body @ t2" "rmatch [One (Lit CHR 0x22)] t2 = Some (ms2, rest)"
    by (blast dest: rmatch_Star_sound)
  from 2(2) obtain x3 t3 ms3 where
    3: "t2 = x3 # t3" "in_cls (Lit CHR 0x22) x3" "rmatch [] t3 = Some (ms3, rest)"
    by (blast dest: rmatch_One_sound)
  from 3(3) have "t3 = rest" by simp
  with 1(1) 2(1) 3(1,2) have "t = (x1 # body @ [CHR 0x22]) @ rest" by simp
  then show ?thesis by (intro exI [of _ "x1 # body @ [CHR 0x22]"]) simp
qed

lemma tail_number_sound:
  assumes "rmatch tail_number t = Some (ms, rest)"
  shows "\<exists>cns. t = cns @ rest \<and> cns \<noteq> [] \<and> isdigit (last cns)"
proof -
  from rmatch_Plus_sound [OF assms [unfolded tail_number_def]] obtain d ms' t' where
    "t = d @ t'" "d \<noteq> []" "\<forall>x\<in>set d. in_cls Digit x" "rmatch [] t' = Some (ms', rest)"
    by blast
  then have "t = d @ rest" "d \<noteq> []" "isdigit (last d)" by auto
  then show ?thesis by blast
qed

lemma json_number_general:
  assumes "key_split u = Some (ms, t)"
  shows "number_sub (json_sub u) = u
       \<or> (\<exists>X cns rest. number_sub (json_sub u) = concat ms @ X @ rest \<and> t = cns @ rest
            \<and> cns \<noteq> [] \<and> (last cns = CHR 0x22 \<or> isdigit (last cns))
            \<and> (X = CHR 0x22 # ''<VALUE>'' @ [CHR 0x22] \<or> X = ''<NUMBER>'')
            \<and> key_split (concat ms @ X @ rest) = Some (ms, X @ rest)
            \<and> number_sub (json_sub (concat ms @ X @ rest)) = concat ms @ X @ rest)"
proof -
  note k = assms
  have nsp: "\<not> isspace CHR 0x22" "\<not> isspace CHR ''<''" "\<not> isspace CHR ''>''"
    by (simp_all add: isspace_def Let_def)
  show ?thesis
  proof (cases "rmatch tail_string t")
    case (Some a)
    obtain ms' rest where a: "a = (ms', rest)" by (cases a)
    let ?X = "CHR 0x22 # ''<VALUE>'' @ [CHR 0x22]"
    let ?o = "concat ms @ ?X @ rest"
    have j: "json_sub u = ?o" using k Some a by (simp add: json_sub_split)
    have ko: "key_split ?o = Some (ms, ?X @ rest)"
      using key_split_replace [OF k, of "?X @ rest"] nsp by simp
    have n: "number_sub ?o = ?o"
      unfolding number_sub_split ko using tails_after_placeholder(3) by simp
    have j2: "json_sub ?o = ?o"
      unfolding json_sub_split ko using tail_string_value [of rest] by simp
    from tail_string_sound [of t ms' rest] Some a
    obtain cns where "t = cns @ rest" "cns \<noteq> []" "last cns = CHR 0x22" by auto
    with ko n j2 have "number_sub (json_sub u) = ?o \<and> t = cns @ rest
            \<and> cns \<noteq> [] \<and> (last cns = CHR 0x22 \<or> isdigit (last cns))
            \<and> (?X = CHR 0x22 # ''<VALUE>'' @ [CHR 0x22] \<or> ?X = ''<NUMBER>'')
            \<and> key_split ?o = Some (ms, ?X @ rest)
            \<and> number_sub (json_sub ?o) = ?o"
      unfolding j by simp
    then show ?thesis by blast
  next
    case None
    then have j: "json_sub u = u" using k by (simp add: json_sub_split)
    show ?thesis
    proof (cases "rmatch tail_number t")
      case None
      then have "number_sub u = u" using k by (simp add: number_sub_split)
      with j show ?thesis by simp
    next
      case (Some a)
      obtain ms' rest where a: "a = (ms', rest)" by (cases a)
      let ?X = "''<NUMBER>''"
      let ?o = "concat ms @ ?X @ rest"
      have n: "number_sub u = ?o" using k Some a by (simp add: number_sub_split)
      have ko: "key_split ?o = Some (ms, ?X @ rest)"
        using key_split_replace [OF k, of "?X @ rest"] nsp by simp
      have j2: "json_sub ?o = ?o"
        unfolding json_sub_split ko using tails_after_placeholder(1) by simp
      have n2: "number_sub ?o = ?o"
        unfolding number_sub_split ko using tails_after_placeholder(2) by simp
      from tail_number_sound [of t ms' rest] Some a
      obtain cns where "t = cns @ rest" "cns \<noteq> []" "isdigit (last cns)" by auto
      with ko n2 j2 have "number_sub (json_sub u) = ?o \<and> t = cns @ rest
            \<and> cns \<noteq> [] \<and> (last cns = CHR 0x22 \<or> isdigit (last cns))
            \<and> (?X = CHR 0x22 # ''<VALUE>'' @ [CHR 0x22] \<or> ?X = ''<NUMBER>'')
            \<and> key_split ?o = Some (ms, ?X @ rest)
            \<and> number_sub (json_sub ?o) = ?o"
        unfolding j n by simp
      then show ?thesis by blast
    qed
  qed
qed

lemma normalize_marker_free:
  assumes "marker_free (strip line)" and "rmatch env_pattern (strip line) = None"
  shows "normalize_line line = compose_sub (number_sub (json_sub (strip line)))"
proof -
  have e0: "re_sub env_pattern g repl (strip line) = strip line" for g repl
    by (simp add: re_sub_def assms(2))
  note e = marker_free_secrets [OF assms(1)]
  show ?thesis
    unfolding normalize_line_def Let_def e0 e
      json_sub_def [symmetric] number_sub_def [symmetric] compose_sub_def [symmetric] ..
qed

text \<open>One pass over a stripped line with none of the four markers that is not an
  environment assignment gives a line of the same kind that a second pass leaves as it is.\<close>

lemma marker_free_fixed:
  assumes "stripped u" and "marker_free u" and "rmatch env_pattern u = None"
  defines "out \<equiv> compose_sub (number_sub (json_sub u))"
  shows "stripped out \<and> marker_free out \<and> rmatch env_pattern out = None
       \<and> compose_sub (number_sub (json_sub out)) = out"
proof (cases "key_split u")
  case (Some r)
  obtain ms t where r: "r = (ms, t)" by (cases r)
  with Some have k: "key_split u = Some (ms, t)" by simp
  note w = key_split_whole [OF k]
  from w(1,2) have une: "u \<noteq> []" by simp
  with assms(1) have hu: "\<not> isspace (hd u)" and lu: "\<not> isspace (last u)"
    by (simp_all add: stripped_def)
  define o1 where "o1 = number_sub (json_sub u)"
  have p: "stripped o1 \<and> marker_free o1 \<and> (\<exists>t'. key_split o1 = Some (ms, t'))
      \<and> number_sub (json_sub o1) = o1"
  proof -
    from json_number_general [OF k] consider (same) "o1 = u"
      | (sub) X cns rest where "o1 = concat ms @ X @ rest" "t = cns @ rest"
          "X = CHR 0x22 # ''<VALUE>'' @ [CHR 0x22] \<or> X = ''<NUMBER>''"
          "key_split (concat ms @ X @ rest) = Some (ms, X @ rest)"
          "number_sub (json_sub (concat ms @ X @ rest)) = concat ms @ X @ rest"
      unfolding o1_def by blast
    then show ?thesis
    proof cases
      case same
      then have "number_sub (json_sub o1) = o1" using o1_def by simp
      with same assms(1,2) k show ?thesis by simp
    next
      case sub
      have nsp: "\<not> isspace (last X)" "X \<noteq> []" using sub(3) by (auto simp add: isspace_def Let_def)
      have h: "hd o1 = hd u" using w(2,4) sub(1) by simp
      note t = sub(2)
      have l: "\<not> isspace (last o1)"
      proof (cases "rest = []")
        case True
        with nsp sub(1) show ?thesis by simp
      next
        case False
        with w(1) t have "last u = last rest" by simp
        with lu False sub(1) show ?thesis by simp
      qed
      have ne: "o1 \<noteq> []" using sub(1) nsp by simp
      have st: "stripped o1" using h hu l ne by (simp add: stripped_def)
      have "prefix (concat ms) u" using w(1) by simp
      moreover have "suffix rest u" using w(1) t by (simp add: suffix_def)
      ultimately have "marker_free (concat ms @ X @ rest)"
        using sub(3) by (intro marker_free_splice [OF assms(2)]) auto
      with st sub show ?thesis by auto
    qed
  qed
  then obtain t' where k1: "key_split o1 = Some (ms, t')" by blast
  have c: "compose_sub o1 = o1"
    by (simp add: compose_sub_def re_sub_def compose_no_match_key [OF k1])
  have "out = o1" unfolding out_def o1_def [symmetric] c by (rule refl)
  with p c env_no_match_key [OF k1] show ?thesis by simp
next
  case None
  then have o1: "number_sub (json_sub u) = u" by (simp add: json_sub_split number_sub_split)
  show ?thesis
  proof (cases "rmatch compose_pattern u")
    case None
    then have "compose_sub u = u" by (simp add: compose_sub_def re_sub_def)
    then have "out = u" by (simp add: out_def o1)
    then show ?thesis using assms(1-3) o1 \<open>compose_sub u = u\<close> by simp
  next
    case (Some r)
    let ?Q = "CHR 0x22"
    obtain ms rest where r: "r = (ms, rest)" by (cases r)
    with Some have m: "rmatch compose_pattern u = Some (ms, rest)" by simp
    then obtain w1 w2 a b where
      ms: "ms = [w1, ''-'', w2, [?Q], a, ''='', b, [?Q], []]"
      and u: "u = w1 @ ''-'' @ w2 @ [?Q] @ a @ ''='' @ b @ [?Q] @ rest"
      and c: "\<forall>x\<in>set w1. isspace x" "\<forall>x\<in>set w2. isspace x" "?Q \<notin> set a"
        "rest = [] \<or> rest = [newline]"
      by (rule compose_shape)
    have une: "u \<noteq> []" using u by simp
    with assms(1) have hu: "\<not> isspace (hd u)" and lu: "\<not> isspace (last u)"
      by (simp_all add: stripped_def)
    have w1: "w1 = []"
    proof (cases w1)
      case (Cons x xs)
      with u c(1) have "isspace (hd u)" by simp
      with hu show ?thesis ..
    qed simp
    have rest: "rest = []"
    proof (rule ccontr)
      assume "rest \<noteq> []"
      with c(4) have "rest = [newline]" by simp
      then have "last u = newline" unfolding u by simp
      moreover have "isspace newline" by (simp add: isspace_def newline_def)
      ultimately show False using lu by simp
    qed
    let ?A = "''-'' @ w2 @ [?Q] @ a @ ''=''"
    let ?X = "''<VALUE>'' @ [?Q]"
    have oeq: "out = ?A @ ?X"
      unfolding out_def o1 by (simp add: compose_sub_def re_sub_def m ms w1 rest)
    have st: "stripped out" unfolding oeq by (simp add: stripped_def isspace_def Let_def)
    have "prefix ?A u" unfolding u w1 by simp
    moreover have "suffix [] u" by simp
    ultimately have "marker_free (?A @ ?X @ [])"
      by (intro marker_free_splice [OF assms(2)]) auto
    then have mf: "marker_free out" unfolding oeq by simp
    have "\<not> in_cls Upper CHR ''-''" by (simp add: isupper_def isdigit_def Let_def)
    then have env: "rmatch env_pattern out = None" unfolding oeq by (simp add: env_det)
    have "\<not> isspace CHR ''-''" "\<not> in_cls Word CHR ''-''"
      by (simp_all add: isspace_def isupper_def islower_def isdigit_def Let_def)
    then have ks: "key_split out = None" unfolding oeq by (simp add: key_split_def opt_quote_def)
    then have jn: "number_sub (json_sub out) = out" by (simp add: json_sub_split number_sub_split)
    have "rmatch compose_pattern ([] @ ''-'' @ w2 @ [?Q] @ a @ ''='' @ ''<VALUE>'' @ [?Q] @ [])
        = Some ([[], ''-'', w2, [?Q], a, ''='', ''<VALUE>'', [?Q], []], [])"
      using c(2,3) by (intro compose_replay) simp_all
    then have "compose_sub out = out" unfolding oeq by (simp add: compose_sub_def re_sub_def)
    with st mf env jn show ?thesis by simp
  qed
qed

lemma normalize_marker_free_twice:
  assumes "marker_free (strip line)"
  shows "normalize_line (normalize_line line) = normalize_line line"
proof (cases "rmatch env_pattern (strip line)")
  case (Some r)
  then have "rmatch env_pattern (strip line) \<noteq> None" by simp
  then obtain K v where "strip line = K @ ''='' @ v" "K \<noteq> []" "\<forall>x\<in>set K. in_cls Upper x"
    "newline \<notin> set v"
    using stripped_strip by (rule env_shape)
  then show ?thesis by (rule normalize_env_line_twice)
next
  case None
  let ?o = "compose_sub (number_sub (json_sub (strip line)))"
  have n: "normalize_line line = ?o" using assms None by (rule normalize_marker_free)
  from marker_free_fixed [OF stripped_strip assms None]
  have f: "stripped ?o" "marker_free ?o" "rmatch env_pattern ?o = None"
    "compose_sub (number_sub (json_sub ?o)) = ?o"
    by simp_all
  have s: "strip ?o = ?o" using f(1) by (rule strip_stripped)
  have "normalize_line ?o = compose_sub (number_sub (json_sub (strip ?o)))"
    by (rule normalize_marker_free) (simp_all add: s f)
  then show ?thesis unfolding n s f(4) .
qed

section \<open>The rules for secrets on any line\<close>

lemma rmatch_needs_lit:
  "One (Lit a) \<in> set is \<Longrightarrow> a \<notin> set s \<Longrightarrow> rmatch is s = None"
  by (induction "is" s rule: rmatch.induct) auto

lemma secret_match_last:
  assumes "newline \<notin> set a" and "newline \<notin> set b"
    and "\<And>k. 0 < k \<Longrightarrow> \<not> prefix m (drop k (m @ b))"
  shows "rmatch (secret_pattern m) (a @ m @ b) = Some (a # map (\<lambda>c. [c]) m @ [b, []], [])"
proof -
  let ?is = "lits m @ [Star Dot, Eol]"
  have a: "\<forall>x\<in>set a. in_cls Dot x" using assms(1) by auto
  have t: "rmatch ?is (m @ b) = Some (map (\<lambda>c. [c]) m @ [b, []], [])"
    by (simp only: rmatch_lits rmatch_dot_star_eol [OF assms(2)]) simp
  have "rmatch (Star Dot # ?is) (a @ m @ b) = Some (a # map (\<lambda>c. [c]) m @ [b, []], [])"
  proof (rule rmatch_Star_longest [OF a t])
    fix k :: nat assume "0 < k"
    then have "\<not> prefix m (drop k (m @ b))" by (rule assms(3))
    then show "rmatch ?is (drop k (m @ b)) = None" by (rule rmatch_lits_None)
  qed
  then show ?thesis by (simp add: secret_pattern_def)
qed

lemma secret_sub_last:
  assumes "newline \<notin> set a" and "newline \<notin> set b"
    and "\<And>k. 0 < k \<Longrightarrow> \<not> prefix m (drop k (m @ b))"
  shows "re_sub (secret_pattern m) (Suc (length m)) repl (a @ m @ b) = a @ m @ repl"
  using secret_match_last [OF assms] by (simp add: re_sub_def concat_singletons)

lemma last_occurrence:
  assumes "sublist m s" and "m \<noteq> []"
  shows "\<exists>a b. s = a @ m @ b \<and> (\<forall>k. 0 < k \<longrightarrow> \<not> prefix m (drop k (m @ b)))"
proof -
  define K where "K = {k. k \<le> length s \<and> prefix m (drop k s)}"
  from assms(1) obtain ps ss where s: "s = ps @ m @ ss" by (auto simp add: sublist_def)
  then have "length ps \<in> K" by (simp add: K_def)
  then have ne: "K \<noteq> {}" by auto
  have fin: "finite K" by (simp add: K_def)
  define k0 where "k0 = Max K"
  have k0: "k0 \<in> K" unfolding k0_def using fin ne by (rule Max_in)
  then obtain b where b: "drop k0 s = m @ b" by (auto simp add: K_def prefix_def)
  have sa: "s = take k0 s @ m @ b" using b by (metis append_take_drop_id)
  have "\<not> prefix m (drop k (m @ b))" if "0 < k" for k
  proof
    assume p: "prefix m (drop k (m @ b))"
    have d: "drop k (m @ b) = drop (k0 + k) s" by (simp add: b [symmetric] add.commute)
    with p assms(2) have "drop (k0 + k) s \<noteq> []" by auto
    then have "k0 + k \<le> length s" by simp
    with p d have "k0 + k \<in> K" by (simp add: K_def)
    from Max_ge [OF fin this] have "k0 + k \<le> k0" by (simp add: k0_def)
    with that show False by simp
  qed
  with sa show ?thesis by blast
qed

lemma secret_sub_cases:
  assumes "newline \<notin> set s" and "m \<noteq> []"
  shows "(\<not> sublist m s \<and> re_sub (secret_pattern m) (Suc (length m)) repl s = s)
       \<or> (\<exists>a b. s = a @ m @ b \<and> re_sub (secret_pattern m) (Suc (length m)) repl s = a @ m @ repl)"
proof (cases "sublist m s")
  case False
  then show ?thesis by (simp add: secret_no_marker)
next
  case True
  from last_occurrence [OF this assms(2)]
  obtain a b where s: "s = a @ m @ b" and l: "\<forall>k. 0 < k \<longrightarrow> \<not> prefix m (drop k (m @ b))"
    by blast
  from assms(1) s have "newline \<notin> set a" "newline \<notin> set b" by simp_all
  from secret_sub_last [OF this, of m repl] l s show ?thesis by blast
qed

lemma overlap_free:
  assumes "CHR ''='' \<notin> set stem" and "\<not> sublist (stem @ ''='') w" and "0 < k"
  shows "\<not> prefix (stem @ ''='') (drop k ((stem @ ''='') @ w))"
proof
  let ?M = "stem @ ''=''"
  assume p: "prefix ?M (drop k (?M @ w))"
  show False
  proof (cases "length ?M \<le> k")
    case True
    then have "drop k (?M @ w) = drop (k - length ?M) w" by (simp del: append.simps)
    with p obtain r where "drop (k - length ?M) w = ?M @ r" by (auto simp add: prefix_def)
    then have "w = take (k - length ?M) w @ ?M @ r" by (metis append_take_drop_id)
    then have "sublist ?M w" by (metis sublist_appendI)
    with assms(2) show False ..
  next
    case False
    then have k: "k \<le> length stem" by simp
    then have d: "drop k (?M @ w) = drop k stem @ CHR ''='' # w" by simp
    let ?i = "length stem - k"
    have i: "?i < length stem" using assms(3) k by simp
    from p d obtain r where e: "drop k stem @ CHR ''='' # w = (stem @ ''='') @ r" by (auto simp add: prefix_def)
    have "(drop k stem @ CHR ''='' # w) ! ?i = CHR ''=''" by (simp add: nth_append)
    moreover have "((stem @ ''='') @ r) ! ?i = stem ! ?i" using i by (simp add: nth_append)
    ultimately have "stem ! ?i = CHR ''=''" using e by simp
    with i assms(1) show False by (metis nth_mem)
  qed
qed

lemma secret_own:
  assumes "CHR ''='' \<notin> set stem" and "newline \<notin> set k0" and "newline \<notin> set w"
    and "\<not> sublist (stem @ ''='') w" and "g = Suc (Suc (length stem))"
  shows "re_sub (secret_pattern (stem @ ''='')) g repl (k0 @ stem @ ''='' @ w)
           = k0 @ stem @ ''='' @ repl"
  using secret_sub_last [OF assms(2,3), of "stem @ ''=''" repl] overlap_free [OF assms(1,4)] assms(5)
  by simp

lemma first_split:
  assumes "a \<notin> set xs" and "a \<notin> set xs'" and "xs @ a # ys = xs' @ a # ys'"
  shows "xs = xs'" "ys = ys'"
proof -
  have "takeWhile (\<lambda>x. x \<noteq> a) (xs @ a # ys) = xs"
    using assms(1) by (auto simp add: takeWhile_tail takeWhile_eq_all_conv)
  moreover have "takeWhile (\<lambda>x. x \<noteq> a) (xs' @ a # ys') = xs'"
    using assms(2) by (auto simp add: takeWhile_tail takeWhile_eq_all_conv)
  ultimately show "xs = xs'" using assms(3) by simp
  with assms(3) show "ys = ys'" by simp
qed

lemma secret_other:
  assumes "CHR ''='' \<notin> set key" and "newline \<notin> set key" and "newline \<notin> set w"
    and "\<not> suffix stem' key" and "\<not> sublist M w"
    and "repl \<noteq> []" and "hd repl \<notin> set M" and "last repl \<notin> set M" and "\<not> set M \<subseteq> set repl"
    and "newline \<notin> set repl" and "g = Suc (Suc (length stem'))"
  shows "\<exists>w'. re_sub (secret_pattern (stem' @ ''='')) g repl (key @ ''='' @ w)
                 = key @ ''='' @ w'
              \<and> newline \<notin> set w' \<and> \<not> sublist M w'"
proof -
  let ?s = "key @ ''='' @ w"
  let ?m = "stem' @ ''=''"
  have nl: "newline \<notin> set ?s" using assms(2,3) by (simp add: newline_def)
  from secret_sub_cases [OF nl, of ?m repl] assms(11)
  consider (same) "re_sub (secret_pattern ?m) g repl ?s = ?s"
    | (cut) a b where "?s = a @ ?m @ b"
        "re_sub (secret_pattern ?m) g repl ?s = a @ ?m @ repl"
    by auto
  then show ?thesis
  proof cases
    case same
    with assms(3,5) show ?thesis by auto
  next
    case cut
    have "prefix (key @ ''='') (a @ ?m)"
    proof -
      have "prefix (key @ ''='') ?s" by simp
      moreover have "prefix (a @ ?m) ?s" unfolding cut(1) by simp
      ultimately consider "prefix (key @ ''='') (a @ ?m)" | "prefix (a @ ?m) (key @ ''='')"
        by (metis prefix_same_cases)
      then show ?thesis
      proof cases
        case 2
        then obtain z where z: "key @ ''='' = (a @ ?m) @ z" by (auto simp add: prefix_def)
        show ?thesis
        proof (cases "z = []")
          case True
          with z have "key = a @ stem'" by simp
          then have "suffix stem' key" by (simp add: suffix_def)
          with assms(4) show ?thesis ..
        next
          case False
          then obtain z' where "z = z' @ [last z]" by (metis append_butlast_last_id)
          with z have "key @ ''='' = (a @ ?m @ z') @ [last z]" by simp
          then have "key = a @ ?m @ z'" by (metis append1_eq_conv)
          then have "CHR ''='' \<in> set key" by simp
          with assms(1) show ?thesis ..
        qed
      qed
    qed
    then obtain w0 where w0: "a @ ?m = key @ ''='' @ w0" by (auto simp add: prefix_def)
    with cut(1) have "key @ ''='' @ w = key @ ''='' @ w0 @ b" by (metis append_assoc)
    then have w: "w = w0 @ b" by simp
    have r: "re_sub (secret_pattern ?m) g repl ?s = key @ ''='' @ (w0 @ repl)"
      using cut(2) w0 by (metis append_assoc)
    have "\<not> sublist M (w0 @ repl @ [])"
      using assms(5) _ _ assms(6-9) by (rule no_sublist_splice) (simp_all add: w)
    moreover have "newline \<notin> set (w0 @ repl)" using assms(3,10) w by simp
    ultimately show ?thesis using r by auto
  qed
qed

section \<open>Normalization of assignments to a secret\<close>

lemma normalize_unfold:
  "normalize_line line =
     compose_sub (number_sub (json_sub (secret_subs (re_sub env_pattern 1 ''=<VALUE>'' (strip line)))))"
  unfolding normalize_line_def Let_def secret_subs_def json_sub_def number_sub_def compose_sub_def ..

lemma env_step:
  assumes "stripped (key @ ''='' @ v)" and "CHR ''='' \<notin> set key" and "newline \<notin> set v"
    and "(key \<noteq> [] \<and> (\<forall>x\<in>set key. in_cls Upper x)) \<or> \<not> sublist M v"
    and "\<not> sublist M ''<VALUE>''"
  shows "\<exists>w. re_sub env_pattern 1 ''=<VALUE>'' (key @ ''='' @ v) = key @ ''='' @ w
            \<and> newline \<notin> set w \<and> \<not> sublist M w"
proof (cases "rmatch env_pattern (key @ ''='' @ v)")
  case None
  then have r: "re_sub env_pattern 1 ''=<VALUE>'' (key @ ''='' @ v) = key @ ''='' @ v"
    by (simp add: re_sub_def)
  have "\<not> sublist M v"
  proof (cases "key \<noteq> [] \<and> (\<forall>x\<in>set key. in_cls Upper x)")
    case True
    then have "rmatch env_pattern (key @ ''='' @ v) \<noteq> None"
      using env_match [of key v] assms(3) by simp
    with None show ?thesis by simp
  next
    case False
    with assms(4) show ?thesis by blast
  qed
  with r assms(3) show ?thesis by blast
next
  case (Some r)
  then have "rmatch env_pattern (key @ ''='' @ v) \<noteq> None" by simp
  then obtain K v' where e: "key @ ''='' @ v = K @ ''='' @ v'" and K: "K \<noteq> []" "\<forall>x\<in>set K. in_cls Upper x"
    and v': "newline \<notin> set v'"
    using assms(1) by (rule env_shape)
  have "CHR ''='' \<notin> set K" using K(2) upper_not_special(4) by blast
  from first_split(1) [OF assms(2) this] e have "key = K" by simp
  with env_sub [OF K v'] e have "re_sub env_pattern 1 ''=<VALUE>'' (key @ ''='' @ v) = key @ ''='' @ ''<VALUE>''"
    by simp
  moreover have "newline \<notin> set ''<VALUE>''" by (simp add: newline_def)
  ultimately show ?thesis using assms(5) by blast
qed

lemma compose_end:
  assumes "rmatch compose_pattern s \<noteq> None"
  shows "s \<noteq> [] \<and> (last s = CHR 0x22 \<or> last s = newline)"
proof -
  from assms obtain ms rest where "rmatch compose_pattern s = Some (ms, rest)" by auto
  then obtain w1 w2 a b where
    "s = w1 @ ''-'' @ w2 @ [CHR 0x22] @ a @ ''='' @ b @ [CHR 0x22] @ rest"
    "rest = [] \<or> rest = [newline]"
    by (rule compose_shape)
  then show ?thesis by auto
qed

lemma tail_rules_id:
  assumes "CHR '':'' \<notin> set s" and "s \<noteq> []" and "last s = CHR ''>''"
  shows "compose_sub (number_sub (json_sub s)) = s"
proof -
  have "One (Lit CHR '':'') \<in> set json_string_pattern" "One (Lit CHR '':'') \<in> set json_number_pattern"
    by (simp_all add: json_string_pattern_def json_number_pattern_def key_prefix_def)
  then have j: "json_sub s = s" and n: "number_sub s = s"
    using assms(1) by (simp_all add: json_sub_def number_sub_def re_sub_def rmatch_needs_lit)
  have "rmatch compose_pattern s = None"
  proof (rule ccontr)
    assume "rmatch compose_pattern s \<noteq> None"
    from compose_end [OF this] assms(3) show False by (simp add: newline_def)
  qed
  then have "compose_sub s = s" by (simp add: compose_sub_def re_sub_def)
  with j n show ?thesis by simp
qed

lemma normalize_secret_line:
  assumes "strip line = key @ ''='' @ v"
    and "CHR ''='' \<notin> set key" and "CHR '':'' \<notin> set key" and "newline \<notin> set key"
    and "newline \<notin> set v" and "suffix stem key"
    and "(stem, ph) \<in> {(''_SECRET'', ''<SECRET>''), (''_KEY'', ''<KEY>''),
                        (''_TOKEN'', ''<TOKEN>''), (''_PASSWORD'', ''<PASSWORD>'')}"
    and "(\<forall>x\<in>set key. in_cls Upper x) \<or> \<not> sublist (stem @ ''='') v"
  shows "normalize_line line = key @ ''='' @ ph"
proof -
  let ?M = "stem @ ''=''"
  have stem: "stem \<noteq> []" "CHR ''='' \<notin> set stem" using assms(7) by auto
  from assms(6) obtain k0 where key: "key = k0 @ stem" by (auto simp add: suffix_def)
  have k0: "newline \<notin> set k0" using assms(4) key by simp
  have kne: "key \<noteq> []" using key stem by simp
  have st: "stripped (key @ ''='' @ v)" using stripped_strip [of line] assms(1) by simp
  have nv: "\<not> sublist ?M ''<VALUE>''"
  proof
    assume "sublist ?M ''<VALUE>''"
    then have "set ?M \<subseteq> set ''<VALUE>''" by (rule set_mono_sublist)
    then show False by simp
  qed
  from env_step [OF st assms(2,5) _ nv] assms(8) kne
  obtain w0 where e0: "re_sub env_pattern 1 ''=<VALUE>'' (strip line) = key @ ''='' @ w0"
    and w0: "newline \<notin> set w0" "\<not> sublist ?M w0"
    unfolding assms(1) by blast
  have other: "\<not> suffix u key" if "u \<noteq> []" "last u \<noteq> last stem" for u
    using that suffix_last [of u key] suffix_last [OF assms(6) stem(1)] by auto
  have none: "re_sub (secret_pattern (u @ ''='')) g repl (key @ ''='' @ ph) = key @ ''='' @ ph"
    if "u \<noteq> []" "last u \<noteq> last stem" for u g repl
  proof (rule secret_sub_none [OF assms(2) _ other [OF that]])
    show "CHR ''='' \<notin> set ph" using assms(7) by auto
  qed
  have own: "re_sub (secret_pattern ?M) g repl (key @ ''='' @ w) = key @ ''='' @ repl"
    if "newline \<notin> set w" "\<not> sublist ?M w" "g = Suc (Suc (length stem))" for g repl w
    using secret_own [OF stem(2) k0 that] by (simp add: key)
  note oth = secret_other [OF assms(2) assms(4)]
  have a: "secret_subs (key @ ''='' @ w0) = key @ ''='' @ ph"
  proof -
    from assms(7) consider (S) "stem = ''_SECRET''" "ph = ''<SECRET>''"
      | (K) "stem = ''_KEY''" "ph = ''<KEY>''"
      | (T) "stem = ''_TOKEN''" "ph = ''<TOKEN>''"
      | (P) "stem = ''_PASSWORD''" "ph = ''<PASSWORD>''"
      by auto
    then show ?thesis
    proof cases
      case S
      have e1: "re_sub (secret_pattern ''_SECRET='') 9 ''<SECRET>'' (key @ ''='' @ w0) = key @ ''='' @ ph"
        using own [OF w0, of 9 "''<SECRET>''"] by (simp add: S)
      have e2: "re_sub (secret_pattern ''_KEY='') 6 ''<KEY>'' (key @ ''='' @ ph) = key @ ''='' @ ph"
        using none [of "''_KEY''" 6 "''<KEY>''"] by (simp add: S)
      have e3: "re_sub (secret_pattern ''_TOKEN='') 8 ''<TOKEN>'' (key @ ''='' @ ph) = key @ ''='' @ ph"
        using none [of "''_TOKEN''" 8 "''<TOKEN>''"] by (simp add: S)
      have e4: "re_sub (secret_pattern ''_PASSWORD='') 11 ''<PASSWORD>'' (key @ ''='' @ ph) = key @ ''='' @ ph"
        using none [of "''_PASSWORD''" 11 "''<PASSWORD>''"] by (simp add: S)
      show ?thesis unfolding secret_subs_def e1 e2 e3 e4 ..
    next
      case K
      from oth [OF w0(1) other w0(2), of "''_SECRET''" "''<SECRET>''" 9]
      obtain w1 where e1: "re_sub (secret_pattern ''_SECRET='') 9 ''<SECRET>'' (key @ ''='' @ w0) = key @ ''='' @ w1"
        and w1: "newline \<notin> set w1" "\<not> sublist ?M w1"
        by (auto simp add: K newline_def)
      have e2: "re_sub (secret_pattern ''_KEY='') 6 ''<KEY>'' (key @ ''='' @ w1) = key @ ''='' @ ph"
        using own [OF w1, of 6 "''<KEY>''"] by (simp add: K)
      have e3: "re_sub (secret_pattern ''_TOKEN='') 8 ''<TOKEN>'' (key @ ''='' @ ph) = key @ ''='' @ ph"
        using none [of "''_TOKEN''" 8 "''<TOKEN>''"] by (simp add: K)
      have e4: "re_sub (secret_pattern ''_PASSWORD='') 11 ''<PASSWORD>'' (key @ ''='' @ ph) = key @ ''='' @ ph"
        using none [of "''_PASSWORD''" 11 "''<PASSWORD>''"] by (simp add: K)
      show ?thesis unfolding secret_subs_def e1 e2 e3 e4 ..
    next
      case T
      from oth [OF w0(1) other w0(2), of "''_SECRET''" "''<SECRET>''" 9]
      obtain w1 where e1: "re_sub (secret_pattern ''_SECRET='') 9 ''<SECRET>'' (key @ ''='' @ w0) = key @ ''='' @ w1"
        and w1: "newline \<notin> set w1" "\<not> sublist ?M w1"
        by (auto simp add: T newline_def)
      from oth [OF w1(1) other w1(2), of "''_KEY''" "''<KEY>''" 6]
      obtain w2 where e2: "re_sub (secret_pattern ''_KEY='') 6 ''<KEY>'' (key @ ''='' @ w1) = key @ ''='' @ w2"
        and w2: "newline \<notin> set w2" "\<not> sublist ?M w2"
        by (auto simp add: T newline_def)
      have e3: "re_sub (secret_pattern ''_TOKEN='') 8 ''<TOKEN>'' (key @ ''='' @ w2) = key @ ''='' @ ph"
        using own [OF w2, of 8 "''<TOKEN>''"] by (simp add: T)
      have e4: "re_sub (secret_pattern ''_PASSWORD='') 11 ''<PASSWORD>'' (key @ ''='' @ ph) = key @ ''='' @ ph"
        using none [of "''_PASSWORD''" 11 "''<PASSWORD>''"] by (simp add: T)
      show ?thesis unfolding secret_subs_def e1 e2 e3 e4 ..
    next
      case P
      from oth [OF w0(1) other w0(2), of "''_SECRET''" "''<SECRET>''" 9]
      obtain w1 where e1: "re_sub (secret_pattern ''_SECRET='') 9 ''<SECRET>'' (key @ ''='' @ w0) = key @ ''='' @ w1"
        and w1: "newline \<notin> set w1" "\<not> sublist ?M w1"
        by (auto simp add: P newline_def)
      from oth [OF w1(1) other w1(2), of "''_KEY''" "''<KEY>''" 6]
      obtain w2 where e2: "re_sub (secret_pattern ''_KEY='') 6 ''<KEY>'' (key @ ''='' @ w1) = key @ ''='' @ w2"
        and w2: "newline \<notin> set w2" "\<not> sublist ?M w2"
        by (auto simp add: P newline_def)
      from oth [OF w2(1) other w2(2), of "''_TOKEN''" "''<TOKEN>''" 8]
      obtain w3 where e3: "re_sub (secret_pattern ''_TOKEN='') 8 ''<TOKEN>'' (key @ ''='' @ w2) = key @ ''='' @ w3"
        and w3: "newline \<notin> set w3" "\<not> sublist ?M w3"
        by (auto simp add: P newline_def)
      have e4: "re_sub (secret_pattern ''_PASSWORD='') 11 ''<PASSWORD>'' (key @ ''='' @ w3) = key @ ''='' @ ph"
        using own [OF w3, of 11 "''<PASSWORD>''"] by (simp add: P)
      show ?thesis unfolding secret_subs_def e1 e2 e3 e4 ..
    qed
  qed
  have b: "compose_sub (number_sub (json_sub (key @ ''='' @ ph))) = key @ ''='' @ ph"
  proof (rule tail_rules_id)
    show "CHR '':'' \<notin> set (key @ ''='' @ ph)" using assms(3,7) by auto
    show "key @ ''='' @ ph \<noteq> []" by simp
    show "last (key @ ''='' @ ph) = CHR ''>''" using assms(7) by auto
  qed
  show ?thesis unfolding normalize_unfold e0 a b ..
qed

section \<open>Normalization of lines with markers of one kind\<close>

lemma marker_splice:
  assumes "m \<in> set markers" and "\<not> sublist m u" and "prefix A u" and "suffix C u"
    and "X \<in> {''<SECRET>'', ''<KEY>'', ''<TOKEN>'', ''<PASSWORD>'',
             CHR 0x22 # ''<VALUE>'' @ [CHR 0x22], ''<NUMBER>'', ''<VALUE>'' @ [CHR 0x22]}"
  shows "\<not> sublist m (A @ X @ C)"
proof (rule no_sublist_splice [OF assms(2,3,4)])
  have e: "CHR ''='' \<in> set m" "CHR ''<'' \<notin> set m" "CHR ''>'' \<notin> set m" "CHR 0x22 \<notin> set m"
    using assms(1) by (auto simp add: markers_def)
  have x: "CHR ''='' \<notin> set X" "X \<noteq> []" "hd X = CHR ''<'' \<or> hd X = CHR 0x22"
    "last X = CHR ''>'' \<or> last X = CHR 0x22"
    using assms(5) by auto
  show "X \<noteq> []" by (rule x(2))
  show "hd X \<notin> set m" using e x(3) by auto
  show "last X \<notin> set m" using e x(4) by auto
  show "\<not> set m \<subseteq> set X" using e(1) x(1) by auto
qed

lemma env_None_prefix:
  assumes "rmatch env_pattern (p @ x) = None" and "newline \<notin> set (p @ x)" and "CHR ''='' \<in> set p"
  shows "rmatch env_pattern (p @ y) = None"
proof -
  have nu: "\<not> in_cls Upper CHR ''=''" by (rule eq_not_special(1))
  have t: "takeWhile (in_cls Upper) (p @ z) = takeWhile (in_cls Upper) p" for z
    using assms(3) nu by (rule takeWhile_append1)
  have d: "dropWhile (in_cls Upper) (p @ z) = dropWhile (in_cls Upper) p @ z" for z
    using assms(3) nu by (rule dropWhile_append1)
  have "dropWhile (in_cls Upper) p \<noteq> []" using assms(3) nu by (auto simp add: dropWhile_eq_Nil_conv)
  then obtain c d' where cd: "dropWhile (in_cls Upper) p = c # d'" by (cases "dropWhile (in_cls Upper) p") auto
  have e: "rmatch env_pattern (p @ z) =
      (if takeWhile (in_cls Upper) p = [] \<or> c \<noteq> CHR ''='' then None
       else hit (takeWhile (in_cls Upper) p) (hit ''='' (rmatch [Star Dot, Eol] (d' @ z))))" for z
    by (simp add: env_det t d cd)
  have "set d' \<subseteq> set p" using cd by (metis set_dropWhileD set_subset_Cons subsetD subsetI)
  then have "newline \<notin> set (d' @ x)" using assms(2) by auto
  then have "rmatch [Star Dot, Eol] (d' @ x) \<noteq> None" by (simp add: rmatch_dot_star_eol)
  with assms(1) have "takeWhile (in_cls Upper) p = [] \<or> c \<noteq> CHR ''=''"
    unfolding e by (auto split: if_splits simp add: hit_None_iff)
  then show ?thesis unfolding e by simp
qed

lemma secret_subs_at:
  assumes "newline \<notin> set a" and "newline \<notin> set b" and "m \<in> set markers"
    and "\<forall>k. 0 < k \<longrightarrow> \<not> prefix m (drop k (m @ b))"
    and "\<forall>m'\<in>set markers. m' \<noteq> m \<longrightarrow> \<not> sublist m' (a @ m @ b)"
  shows "secret_subs (a @ m @ b) = a @ m @ marker_placeholder m"
proof -
  let ?s = "a @ m @ b"
  let ?r = "a @ m @ marker_placeholder m"
  have own: "re_sub (secret_pattern m) g repl ?s = a @ m @ repl" if "g = Suc (length m)" for g repl
    using secret_sub_last [OF assms(1,2), of m repl] assms(4) that by simp
  have before: "re_sub (secret_pattern m') g repl ?s = ?s" if "m' \<in> set markers" "m' \<noteq> m" for m' g repl
    using assms(5) that by (simp add: secret_no_marker)
  have after: "re_sub (secret_pattern m') g repl ?r = ?r" if "m' \<in> set markers" "m' \<noteq> m" for m' g repl
  proof -
    have "\<not> sublist m' ((a @ m) @ marker_placeholder m @ [])"
    proof (rule marker_splice [OF that(1)])
      show "\<not> sublist m' ?s" using assms(5) that by simp
      show "prefix (a @ m) ?s" by simp
      show "suffix [] ?s" by simp
      show "marker_placeholder m \<in> {''<SECRET>'', ''<KEY>'', ''<TOKEN>'', ''<PASSWORD>'',
             CHR 0x22 # ''<VALUE>'' @ [CHR 0x22], ''<NUMBER>'', ''<VALUE>'' @ [CHR 0x22]}"
        by (simp add: marker_placeholder_def)
    qed
    then show ?thesis by (simp add: secret_no_marker)
  qed
  from assms(3) consider (S) "m = ''_SECRET=''" | (K) "m = ''_KEY=''" | (T) "m = ''_TOKEN=''"
    | (P) "m = ''_PASSWORD=''"
    by (auto simp add: markers_def)
  then show ?thesis
  proof cases
    case S
    have e1: "re_sub (secret_pattern ''_SECRET='') 9 ''<SECRET>'' ?s = ?r"
      using own [of 9 "''<SECRET>''"] by (simp add: S marker_placeholder_def)
    have e2: "re_sub (secret_pattern ''_KEY='') 6 ''<KEY>'' ?r = ?r"
      by (rule after) (simp_all add: S markers_def)
    have e3: "re_sub (secret_pattern ''_TOKEN='') 8 ''<TOKEN>'' ?r = ?r"
      by (rule after) (simp_all add: S markers_def)
    have e4: "re_sub (secret_pattern ''_PASSWORD='') 11 ''<PASSWORD>'' ?r = ?r"
      by (rule after) (simp_all add: S markers_def)
    show ?thesis unfolding secret_subs_def e1 e2 e3 e4 ..
  next
    case K
    have e1: "re_sub (secret_pattern ''_SECRET='') 9 ''<SECRET>'' ?s = ?s"
      by (rule before) (simp_all add: K markers_def)
    have e2: "re_sub (secret_pattern ''_KEY='') 6 ''<KEY>'' ?s = ?r"
      using own [of 6 "''<KEY>''"] by (simp add: K marker_placeholder_def)
    have e3: "re_sub (secret_pattern ''_TOKEN='') 8 ''<TOKEN>'' ?r = ?r"
      by (rule after) (simp_all add: K markers_def)
    have e4: "re_sub (secret_pattern ''_PASSWORD='') 11 ''<PASSWORD>'' ?r = ?r"
      by (rule after) (simp_all add: K markers_def)
    show ?thesis unfolding secret_subs_def e1 e2 e3 e4 ..
  next
    case T
    have e1: "re_sub (secret_pattern ''_SECRET='') 9 ''<SECRET>'' ?s = ?s"
      by (rule before) (simp_all add: T markers_def)
    have e2: "re_sub (secret_pattern ''_KEY='') 6 ''<KEY>'' ?s = ?s"
      by (rule before) (simp_all add: T markers_def)
    have e3: "re_sub (secret_pattern ''_TOKEN='') 8 ''<TOKEN>'' ?s = ?r"
      using own [of 8 "''<TOKEN>''"] by (simp add: T marker_placeholder_def)
    have e4: "re_sub (secret_pattern ''_PASSWORD='') 11 ''<PASSWORD>'' ?r = ?r"
      by (rule after) (simp_all add: T markers_def)
    show ?thesis unfolding secret_subs_def e1 e2 e3 e4 ..
  next
    case P
    have e1: "re_sub (secret_pattern ''_SECRET='') 9 ''<SECRET>'' ?s = ?s"
      by (rule before) (simp_all add: P markers_def)
    have e2: "re_sub (secret_pattern ''_KEY='') 6 ''<KEY>'' ?s = ?s"
      by (rule before) (simp_all add: P markers_def)
    have e3: "re_sub (secret_pattern ''_TOKEN='') 8 ''<TOKEN>'' ?s = ?s"
      by (rule before) (simp_all add: P markers_def)
    have e4: "re_sub (secret_pattern ''_PASSWORD='') 11 ''<PASSWORD>'' ?s = ?r"
      using own [of 11 "''<PASSWORD>''"] by (simp add: P marker_placeholder_def)
    show ?thesis unfolding secret_subs_def e1 e2 e3 e4 ..
  qed
qed

lemma marker_shape:
  assumes "m \<in> set markers"
  obtains stem where "m = stem @ ''=''" "CHR ''='' \<notin> set stem"
    "\<not> sublist m (marker_placeholder m)" "marker_placeholder m \<noteq> []"
    "last (marker_placeholder m) = CHR ''>''" "newline \<notin> set (m @ marker_placeholder m)"
    "CHR 0x22 \<notin> set (m @ marker_placeholder m)" "\<forall>x\<in>set (m @ marker_placeholder m). \<not> isdigit x"
proof -
  have ns: "\<not> sublist m (marker_placeholder m)"
  proof
    assume "sublist m (marker_placeholder m)"
    then have "set m \<subseteq> set (marker_placeholder m)" by (rule set_mono_sublist)
    with assms show False by (auto simp add: markers_def marker_placeholder_def)
  qed
  from assms consider "m = ''_SECRET='' @ []" | "m = ''_KEY='' @ []" | "m = ''_TOKEN='' @ []"
    | "m = ''_PASSWORD='' @ []"
    by (auto simp add: markers_def)
  then show ?thesis
  proof cases
    case 1
    show ?thesis
      by (rule that [of "''_SECRET''"]) (insert ns, simp_all add: 1 marker_placeholder_def newline_def isdigit_def)
  next
    case 2
    show ?thesis
      by (rule that [of "''_KEY''"]) (insert ns, simp_all add: 2 marker_placeholder_def newline_def isdigit_def)
  next
    case 3
    show ?thesis
      by (rule that [of "''_TOKEN''"]) (insert ns, simp_all add: 3 marker_placeholder_def newline_def isdigit_def)
  next
    case 4
    show ?thesis
      by (rule that [of "''_PASSWORD''"]) (insert ns, simp_all add: 4 marker_placeholder_def newline_def isdigit_def)
  qed
qed

lemma secret_subs_fixed:
  assumes "newline \<notin> set q" and "m \<in> set markers"
    and "\<forall>m'\<in>set markers. m' \<noteq> m \<longrightarrow> \<not> sublist m' (q @ m @ marker_placeholder m)"
  shows "secret_subs (q @ m @ marker_placeholder m) = q @ m @ marker_placeholder m"
proof -
  from assms(2) obtain stem where m: "m = stem @ ''=''" and s: "CHR ''='' \<notin> set stem"
    and ns: "\<not> sublist m (marker_placeholder m)" and nl: "newline \<notin> set (m @ marker_placeholder m)"
    by (rule marker_shape)
  have "\<forall>k. 0 < k \<longrightarrow> \<not> prefix m (drop k (m @ marker_placeholder m))"
    using overlap_free [OF s, of "marker_placeholder m"] ns unfolding m by blast
  moreover have "newline \<notin> set (marker_placeholder m)" using nl by simp
  ultimately show ?thesis using assms by (intro secret_subs_at) simp_all
qed

lemma secret_subs_single:
  assumes "newline \<notin> set s" and "m \<in> set markers" and "sublist m s"
    and "\<forall>m'\<in>set markers. m' \<noteq> m \<longrightarrow> \<not> sublist m' s"
  shows "\<exists>a b. s = a @ m @ b \<and> secret_subs s = a @ m @ marker_placeholder m"
proof -
  have "m \<noteq> []" using assms(2) by (auto simp add: markers_def)
  from last_occurrence [OF assms(3) this]
  obtain a b where s: "s = a @ m @ b" and l: "\<forall>k. 0 < k \<longrightarrow> \<not> prefix m (drop k (m @ b))"
    by blast
  from assms(1) s have "newline \<notin> set a" "newline \<notin> set b" by simp_all
  from secret_subs_at [OF this assms(2) l] assms(4) s show ?thesis by blast
qed

lemma single_kind_fixed:
  assumes "stripped u" and "newline \<notin> set u" and "rmatch env_pattern u = None"
    and "m \<in> set markers" and "sublist m u"
    and "\<forall>m'\<in>set markers. m' \<noteq> m \<longrightarrow> \<not> sublist m' u"
  defines "out \<equiv> number_sub (json_sub (secret_subs u))"
  shows "stripped out \<and> rmatch env_pattern out = None \<and> secret_subs out = out
       \<and> number_sub (json_sub out) = out \<and> compose_sub out = out"
proof -
  let ?ph = "marker_placeholder m"
  let ?S = "m @ ?ph"
  from assms(4) obtain stem where m: "m = stem @ ''=''"
    and ph: "?ph \<noteq> []" "last ?ph = CHR ''>''" "newline \<notin> set ?S" "CHR 0x22 \<notin> set ?S"
      "\<forall>x\<in>set ?S. \<not> isdigit x"
    by (rule marker_shape)
  from secret_subs_single [OF assms(2,4,5,6)]
  obtain a b where u: "u = a @ m @ b" and s1: "secret_subs u = a @ ?S" by auto
  define u1 where "u1 = a @ ?S"
  have mne: "m \<noteq> []" and eqm: "CHR ''='' \<in> set m" using m by simp_all
  have une: "u \<noteq> []" using u mne by simp
  with assms(1) have hu: "\<not> isspace (hd u)" by (simp add: stripped_def)
  have h1: "hd u1 = hd u" using mne by (simp add: u u1_def hd_append)
  have nl1: "newline \<notin> set u1" using assms(2) ph(3) by (simp add: u u1_def)
  have oth1: "\<not> sublist m' u1" if "m' \<in> set markers" "m' \<noteq> m" for m'
  proof -
    have "\<not> sublist m' ((a @ m) @ ?ph @ [])"
    proof (rule marker_splice [OF that(1)])
      show "\<not> sublist m' u" using assms(6) that by simp
      show "prefix (a @ m) u" by (simp add: u)
      show "suffix [] u" by simp
      show "?ph \<in> {''<SECRET>'', ''<KEY>'', ''<TOKEN>'', ''<PASSWORD>'',
             CHR 0x22 # ''<VALUE>'' @ [CHR 0x22], ''<NUMBER>'', ''<VALUE>'' @ [CHR 0x22]}"
        by (simp add: marker_placeholder_def)
    qed
    then show ?thesis by (simp add: u1_def)
  qed
  have env1: "rmatch env_pattern u1 = None"
  proof -
    have "rmatch env_pattern ((a @ m) @ b) = None" using assms(3) by (simp add: u)
    moreover have "newline \<notin> set ((a @ m) @ b)" using assms(2) by (simp add: u)
    moreover have "CHR ''='' \<in> set (a @ m)" using eqm by simp
    ultimately have "rmatch env_pattern ((a @ m) @ ?ph) = None" by (rule env_None_prefix)
    then show ?thesis by (simp add: u1_def)
  qed
  have o: "out = number_sub (json_sub u1)" by (simp add: out_def s1 u1_def)
  have main: "\<exists>q. out = q @ ?S \<and> newline \<notin> set q \<and> hd out = hd u
      \<and> (\<forall>m'\<in>set markers. m' \<noteq> m \<longrightarrow> \<not> sublist m' out)
      \<and> rmatch env_pattern out = None \<and> number_sub (json_sub out) = out"
  proof -
    have same: ?thesis if "number_sub (json_sub u1) = u1"
    proof -
      from that have "out = u1" by (simp add: o)
      moreover have "newline \<notin> set a" using nl1 by (simp add: u1_def)
      ultimately show ?thesis using h1 oth1 env1 that by (intro exI [of _ a]) (simp add: u1_def)
    qed
    show ?thesis
    proof (cases "key_split u1")
      case None
      then have "number_sub (json_sub u1) = u1" by (simp add: json_sub_split number_sub_split)
      then show ?thesis by (rule same)
    next
      case (Some r)
      obtain ms t where "r = (ms, t)" by (cases r)
      with Some have k: "key_split u1 = Some (ms, t)" by simp
      note w = key_split_whole [OF k]
      from json_number_general [OF k] consider (a) "number_sub (json_sub u1) = u1"
        | (b) X cns rest where "number_sub (json_sub u1) = concat ms @ X @ rest" "t = cns @ rest"
            "cns \<noteq> []" "last cns = CHR 0x22 \<or> isdigit (last cns)"
            "X = CHR 0x22 # ''<VALUE>'' @ [CHR 0x22] \<or> X = ''<NUMBER>''"
            "key_split (concat ms @ X @ rest) = Some (ms, X @ rest)"
            "number_sub (json_sub (concat ms @ X @ rest)) = concat ms @ X @ rest"
        by blast
      then show ?thesis
      proof cases
        case a
        then show ?thesis by (rule same)
      next
        case b
        have oe: "out = concat ms @ X @ rest" by (simp add: o b(1))
        have u1e: "u1 = concat ms @ cns @ rest" using w(1) b(2) by simp
        have "suffix ?S rest"
        proof -
          have "suffix ?S u1" by (simp add: u1_def suffix_def)
          moreover have "suffix rest u1" by (simp add: u1e suffix_def)
          ultimately consider "suffix ?S rest" | "suffix rest ?S" by (metis suffix_same_cases)
          then show ?thesis
          proof cases
            case 2
            then obtain p where p: "?S = p @ rest" by (auto simp add: suffix_def)
            show ?thesis
            proof (cases "p = []")
              case True
              with p show ?thesis by simp
            next
              case False
              have "a @ p @ rest = (concat ms @ cns) @ rest" using u1e p by (simp add: u1_def)
              then have "a @ p = concat ms @ cns" by simp
              with False b(3) have "last p = last cns" by (metis last_appendR)
              moreover have "last p \<in> set ?S" using False p by (metis last_in_set Un_iff set_append)
              ultimately have "last cns \<in> set ?S" by simp
              with b(4) ph(4,5) have False by auto
              then show ?thesis ..
            qed
          qed
        qed
        then obtain r0 where r0: "rest = r0 @ ?S" by (auto simp add: suffix_def)
        have x: "newline \<notin> set X" "X \<noteq> []" using b(5) by (auto simp add: newline_def)
        have 1: "out = (concat ms @ X @ r0) @ ?S" by (simp add: oe r0)
        have 2: "newline \<notin> set (concat ms @ X @ r0)" using nl1 x(1) by (simp add: u1e r0)
        have 3: "hd out = hd u" using w(2,4) h1 by (simp add: oe)
        have 4: "\<not> sublist m' out" if "m' \<in> set markers" "m' \<noteq> m" for m'
          unfolding oe
        proof (rule marker_splice [OF that(1) oth1 [OF that]])
          show "prefix (concat ms) u1" by (simp add: u1e)
          show "suffix rest u1" by (simp add: u1e suffix_def)
          show "X \<in> {''<SECRET>'', ''<KEY>'', ''<TOKEN>'', ''<PASSWORD>'',
             CHR 0x22 # ''<VALUE>'' @ [CHR 0x22], ''<NUMBER>'', ''<VALUE>'' @ [CHR 0x22]}"
            using b(5) by auto
        qed
        have 5: "rmatch env_pattern out = None" unfolding oe using b(6) by (rule env_no_match_key)
        have 6: "number_sub (json_sub out) = out" unfolding oe by (rule b(7))
        from 1 2 3 4 5 6 show ?thesis by blast
      qed
    qed
  qed
  then obtain q where q: "out = q @ ?S" "newline \<notin> set q" "hd out = hd u"
    "\<forall>m'\<in>set markers. m' \<noteq> m \<longrightarrow> \<not> sublist m' out"
    "rmatch env_pattern out = None" "number_sub (json_sub out) = out"
    by blast
  have ne: "out \<noteq> []" using q(1) mne by simp
  have lo: "last out = CHR ''>''" using q(1) ph(1,2) by simp
  have st: "stripped out" using ne q(3) hu lo by (simp add: stripped_def isspace_def)
  have ss: "secret_subs out = out"
    using secret_subs_fixed [OF q(2) assms(4)] q(4) unfolding q(1) by simp
  have "rmatch compose_pattern out = None"
  proof (rule ccontr)
    assume "rmatch compose_pattern out \<noteq> None"
    from compose_end [OF this] lo show False by (simp add: newline_def)
  qed
  then have cs: "compose_sub out = out" by (simp add: compose_sub_def re_sub_def)
  from st q(5) ss q(6) cs show ?thesis by simp
qed

lemma normalize_single_kind_twice:
  assumes "newline \<notin> set (strip line)" and "m \<in> set markers" and "sublist m (strip line)"
    and "\<forall>m'\<in>set markers. m' \<noteq> m \<longrightarrow> \<not> sublist m' (strip line)"
  shows "normalize_line (normalize_line line) = normalize_line line"
proof (cases "rmatch env_pattern (strip line)")
  case (Some r)
  then have "rmatch env_pattern (strip line) \<noteq> None" by simp
  then obtain K v where "strip line = K @ ''='' @ v" "K \<noteq> []" "\<forall>x\<in>set K. in_cls Upper x"
    "newline \<notin> set v"
    using stripped_strip by (rule env_shape)
  then show ?thesis by (rule normalize_env_line_twice)
next
  case None
  let ?out = "number_sub (json_sub (secret_subs (strip line)))"
  have e: "re_sub env_pattern g repl (strip line) = strip line" for g repl
    by (simp add: re_sub_def None)
  from single_kind_fixed [OF stripped_strip assms(1) None assms(2,3,4)]
  have f: "stripped ?out" "rmatch env_pattern ?out = None" "secret_subs ?out = ?out"
    "number_sub (json_sub ?out) = ?out" "compose_sub ?out = ?out"
    by simp_all
  have n: "normalize_line line = ?out" unfolding normalize_unfold e f(5) ..
  have s: "strip ?out = ?out" using f(1) by (rule strip_stripped)
  have e2: "re_sub env_pattern g repl ?out = ?out" for g repl
    by (simp add: re_sub_def f(2))
  have "normalize_line ?out = ?out" unfolding normalize_unfold s e2 f(3) f(4) f(5) ..
  then show ?thesis unfolding n .
qed

lemma marker_free_kinds: "marker_free s \<longleftrightarrow> marker_kinds s = []"
  by (simp add: marker_free_def marker_kinds_def markers_def)

lemma one_kind:
  assumes "length (marker_kinds s) = 1"
  shows "\<exists>m\<in>set markers. sublist m s \<and> (\<forall>m'\<in>set markers. m' \<noteq> m \<longrightarrow> \<not> sublist m' s)"
proof -
  have d: "distinct markers" by (simp add: markers_def)
  from assms obtain m where f: "filter (\<lambda>m. sublist m s) markers = [m]"
    unfolding marker_kinds_def by (cases "filter (\<lambda>m. sublist m s) markers") auto
  then have "m \<in> set (filter (\<lambda>m. sublist m s) markers)" by simp
  then have m: "m \<in> set markers" "sublist m s" by simp_all
  have "m' = m" if "m' \<in> set markers" "sublist m' s" for m'
  proof -
    from that have "m' \<in> set (filter (\<lambda>m. sublist m s) markers)" by simp
    with f show ?thesis by simp
  qed
  with m show ?thesis by blast
qed

lemma normalize_one_kind_twice:
  assumes "length (marker_kinds (strip line)) \<le> 1" and "newline \<notin> set (strip line)"
  shows "normalize_line (normalize_line line) = normalize_line line"
proof (cases "marker_kinds (strip line) = []")
  case True
  then have "marker_free (strip line)" by (simp add: marker_free_kinds)
  then show ?thesis by (rule normalize_marker_free_twice)
next
  case False
  with assms(1) have "length (marker_kinds (strip line)) = 1"
    by (cases "marker_kinds (strip line)") auto
  from one_kind [OF this] obtain m where "m \<in> set markers" "sublist m (strip line)"
    "\<forall>m'\<in>set markers. m' \<noteq> m \<longrightarrow> \<not> sublist m' (strip line)"
    by blast
  with assms(2) show ?thesis by (intro normalize_single_kind_twice)
qed

section \<open>The claims about normalization\<close>

text \<open>
  Claim C4 speaks of every assignment line whose key ends in \<open>_SECRET\<close>, \<open>_KEY\<close>, \<open>_TOKEN\<close>
  or \<open>_PASSWORD\<close>. Each rule for secrets cuts after the last occurrence of its marker in
  the line, and the rules for \<open>key: value\<close> lines come after them. In the first line below
  the marker of the key occurs again in the value, and the value is cut there; in the
  second the key holds a colon, and the number after it is replaced; in the third the value
  holds a line break, and no rule applies.
\<close>

theorem secret_placeholder_lost:
  "normalize_line ''db_PASSWORD=x_PASSWORD=y'' = ''db_PASSWORD=x_PASSWORD=<PASSWORD>''
   \<and> normalize_line ''db_PASSWORD=x_PASSWORD=y'' \<noteq> ''db_PASSWORD'' @ ''=<PASSWORD>''
   \<and> normalize_line ''a:1_KEY=x'' = ''a:<NUMBER>_KEY=<KEY>''
   \<and> normalize_line ''a:1_KEY=x'' \<noteq> ''a:1_KEY'' @ ''=<KEY>''
   \<and> normalize_line (''db_KEY=a'' @ [newline] @ ''b'') = ''db_KEY=a'' @ [newline] @ ''b''
   \<and> normalize_line (''db_KEY=a'' @ [newline] @ ''b'') \<noteq> ''db_KEY'' @ ''=<KEY>''"
  by code_simp

text \<open>
  Claim C4, amended. Take a line that, stripped, is a key, \<open>=\<close> and a value, where the key
  holds no \<open>=\<close>, no colon and no line break and the value no line break. If the key ends in
  \<open>_SECRET\<close>, \<open>_KEY\<close>, \<open>_TOKEN\<close> or \<open>_PASSWORD\<close>, and either the key is made of \<open>[A-Z0-9_]\<close> only or
  the marker of the key (\<open>_PASSWORD=\<close> for a key that ends in \<open>_PASSWORD\<close>) does not occur in
  the value, then the normalized line is the key, \<open>=\<close> and the placeholder of that kind
  (\<open><SECRET>\<close>, \<open><KEY>\<close>, \<open><TOKEN>\<close>, \<open><PASSWORD>\<close>), and never the generic \<open>KEY=<VALUE>\<close>. In
  particular \<open>DB_PASSWORD=s3cr3t\<close> and \<open>DB_PASSWORD=placeholder\<close> both normalize to
  \<open>DB_PASSWORD=<PASSWORD>\<close>, and a parent with the first against a template with the second
  has no missing line.
\<close>

theorem secret_placeholder_wins:
  assumes "strip line = key @ ''='' @ v"
    and "CHR ''='' \<notin> set key" and "CHR '':'' \<notin> set key" and "newline \<notin> set key"
    and "newline \<notin> set v"
  shows "(suffix ''_SECRET'' key \<and> ((\<forall>x\<in>set key. in_cls Upper x) \<or> \<not> sublist ''_SECRET='' v)
            \<longrightarrow> normalize_line line = key @ ''=<SECRET>'' \<and> normalize_line line \<noteq> key @ ''=<VALUE>'')
       \<and> (suffix ''_KEY'' key \<and> ((\<forall>x\<in>set key. in_cls Upper x) \<or> \<not> sublist ''_KEY='' v)
            \<longrightarrow> normalize_line line = key @ ''=<KEY>'' \<and> normalize_line line \<noteq> key @ ''=<VALUE>'')
       \<and> (suffix ''_TOKEN'' key \<and> ((\<forall>x\<in>set key. in_cls Upper x) \<or> \<not> sublist ''_TOKEN='' v)
            \<longrightarrow> normalize_line line = key @ ''=<TOKEN>'' \<and> normalize_line line \<noteq> key @ ''=<VALUE>'')
       \<and> (suffix ''_PASSWORD'' key \<and> ((\<forall>x\<in>set key. in_cls Upper x) \<or> \<not> sublist ''_PASSWORD='' v)
            \<longrightarrow> normalize_line line = key @ ''=<PASSWORD>'' \<and> normalize_line line \<noteq> key @ ''=<VALUE>'')
       \<and> normalize_line ''DB_PASSWORD=s3cr3t'' = ''DB_PASSWORD=<PASSWORD>''
       \<and> normalize_line ''DB_PASSWORD=placeholder'' = ''DB_PASSWORD=<PASSWORD>''
       \<and> compare_lines [''DB_PASSWORD=placeholder''] [''DB_PASSWORD=s3cr3t''] = []"
proof -
  note n = normalize_secret_line [OF assms]
  have a: "suffix ''_SECRET'' key \<and> ((\<forall>x\<in>set key. in_cls Upper x) \<or> \<not> sublist ''_SECRET='' v)
            \<longrightarrow> normalize_line line = key @ ''=<SECRET>'' \<and> normalize_line line \<noteq> key @ ''=<VALUE>''"
    using n [where stem = "''_SECRET''" and ph = "''<SECRET>''"] by auto
  have b: "suffix ''_KEY'' key \<and> ((\<forall>x\<in>set key. in_cls Upper x) \<or> \<not> sublist ''_KEY='' v)
            \<longrightarrow> normalize_line line = key @ ''=<KEY>'' \<and> normalize_line line \<noteq> key @ ''=<VALUE>''"
    using n [where stem = "''_KEY''" and ph = "''<KEY>''"] by auto
  have c: "suffix ''_TOKEN'' key \<and> ((\<forall>x\<in>set key. in_cls Upper x) \<or> \<not> sublist ''_TOKEN='' v)
            \<longrightarrow> normalize_line line = key @ ''=<TOKEN>'' \<and> normalize_line line \<noteq> key @ ''=<VALUE>''"
    using n [where stem = "''_TOKEN''" and ph = "''<TOKEN>''"] by auto
  have d: "suffix ''_PASSWORD'' key \<and> ((\<forall>x\<in>set key. in_cls Upper x) \<or> \<not> sublist ''_PASSWORD='' v)
            \<longrightarrow> normalize_line line = key @ ''=<PASSWORD>'' \<and> normalize_line line \<noteq> key @ ''=<VALUE>''"
    using n [where stem = "''_PASSWORD''" and ph = "''<PASSWORD>''"] by auto
  have f: "normalize_line ''DB_PASSWORD=s3cr3t'' = ''DB_PASSWORD=<PASSWORD>''" by code_simp
  have g: "normalize_line ''DB_PASSWORD=placeholder'' = ''DB_PASSWORD=<PASSWORD>''" by code_simp
  have h: "compare_lines [''DB_PASSWORD=placeholder''] [''DB_PASSWORD=s3cr3t''] = []" by code_simp
  from a b c d f g h show ?thesis by (intro conjI)
qed

text \<open>The lines \<open>db_PASSWORD=secret\<close>, with a key in lower case and with its newline as
  \<open>readlines\<close> gives it, \<open>export API_KEY=abc\<close>, and \<open>DB_PASSWORD=X_PASSWORD=y\<close>, where the key is
  made of \<open>[A-Z0-9_]\<close> and its marker occurs in the value.\<close>

theorem secret_placeholder_wins_witness:
  "strip (''  db_PASSWORD=secret'' @ [newline]) = ''db_PASSWORD'' @ ''='' @ ''secret''
   \<and> CHR ''='' \<notin> set ''db_PASSWORD'' \<and> CHR '':'' \<notin> set ''db_PASSWORD''
   \<and> newline \<notin> set ''db_PASSWORD'' \<and> newline \<notin> set ''secret''
   \<and> suffix ''_PASSWORD'' ''db_PASSWORD'' \<and> \<not> sublist ''_PASSWORD='' ''secret''
   \<and> normalize_line (''  db_PASSWORD=secret'' @ [newline]) = ''db_PASSWORD=<PASSWORD>''
   \<and> strip ''export API_KEY=abc'' = ''export API_KEY'' @ ''='' @ ''abc''
   \<and> suffix ''_KEY'' ''export API_KEY'' \<and> \<not> sublist ''_KEY='' ''abc''
   \<and> normalize_line ''export API_KEY=abc'' = ''export API_KEY=<KEY>''
   \<and> strip ''DB_PASSWORD=X_PASSWORD=y'' = ''DB_PASSWORD'' @ ''='' @ ''X_PASSWORD=y''
   \<and> list_all (in_cls Upper) ''DB_PASSWORD'' \<and> suffix ''_PASSWORD'' ''DB_PASSWORD''
   \<and> normalize_line ''DB_PASSWORD=X_PASSWORD=y'' = ''DB_PASSWORD=<PASSWORD>''"
proof -
  have a1: "strip (''  db_PASSWORD=secret'' @ [newline]) = ''db_PASSWORD'' @ ''='' @ ''secret''" by code_simp
  have a2: "CHR ''='' \<notin> set ''db_PASSWORD''" by simp
  have a3: "CHR '':'' \<notin> set ''db_PASSWORD''" by simp
  have a4: "newline \<notin> set ''db_PASSWORD''" by code_simp
  have a5: "newline \<notin> set ''secret''" by code_simp
  have a6: "suffix ''_PASSWORD'' ''db_PASSWORD''" by code_simp
  have a7: "\<not> sublist ''_PASSWORD='' ''secret''" by code_simp
  from secret_placeholder_wins [OF a1 a2 a3 a4 a5] a6 a7
  have a: "normalize_line (''  db_PASSWORD=secret'' @ [newline]) = ''db_PASSWORD'' @ ''=<PASSWORD>''" by blast
  have b1: "strip ''export API_KEY=abc'' = ''export API_KEY'' @ ''='' @ ''abc''" by code_simp
  have b2: "CHR ''='' \<notin> set ''export API_KEY''" by simp
  have b3: "CHR '':'' \<notin> set ''export API_KEY''" by simp
  have b4: "newline \<notin> set ''export API_KEY''" by code_simp
  have b5: "newline \<notin> set ''abc''" by code_simp
  have b6: "suffix ''_KEY'' ''export API_KEY''" by code_simp
  have b7: "\<not> sublist ''_KEY='' ''abc''" by code_simp
  from secret_placeholder_wins [OF b1 b2 b3 b4 b5] b6 b7
  have b: "normalize_line ''export API_KEY=abc'' = ''export API_KEY'' @ ''=<KEY>''" by blast
  have c1: "strip ''DB_PASSWORD=X_PASSWORD=y'' = ''DB_PASSWORD'' @ ''='' @ ''X_PASSWORD=y''" by code_simp
  have c2: "CHR ''='' \<notin> set ''DB_PASSWORD''" by simp
  have c3: "CHR '':'' \<notin> set ''DB_PASSWORD''" by simp
  have c4: "newline \<notin> set ''DB_PASSWORD''" by code_simp
  have c5: "newline \<notin> set ''X_PASSWORD=y''" by code_simp
  have c6: "suffix ''_PASSWORD'' ''DB_PASSWORD''" by code_simp
  have c7: "\<forall>x\<in>set ''DB_PASSWORD''. in_cls Upper x" by code_simp
  have c7': "list_all (in_cls Upper) ''DB_PASSWORD''" using c7 by (simp only: list_all_iff)
  from secret_placeholder_wins [OF c1 c2 c3 c4 c5] c6 c7
  have c: "normalize_line ''DB_PASSWORD=X_PASSWORD=y'' = ''DB_PASSWORD'' @ ''=<PASSWORD>''" by blast
  from a1 a2 a3 a4 a5 a6 a7 a b1 b6 b7 b c1 c7' c6 c show ?thesis by simp
qed

text \<open>
  Claim C5 says that normalizing twice equals normalizing once for every line. The rules
  for \<open>_SECRET=\<close> and \<open>_KEY=\<close> each cut after the last occurrence of their marker, one after
  the other. In the first line below the first pass cuts after the second \<open>_SECRET=\<close> and
  then after \<open>_KEY=\<close>, which leaves \<open>dsn=my_SECRET=abc;api_KEY=<KEY>\<close>; the second pass then
  cuts after the first \<open>_SECRET=\<close> and gives \<open>dsn=my_SECRET=<SECRET>\<close>. In the second line a
  line break inside the quoted value keeps the rule for \<open>_KEY=\<close> from applying in the first
  pass; the rule for \<open>key: value\<close> lines removes the line break, and the second pass cuts
  after \<open>_KEY=\<close>.
\<close>

theorem normalize_line_not_idempotent:
  "normalize_line (normalize_line ''dsn=my_SECRET=abc;api_KEY=xyz;db_SECRET=def'')
     \<noteq> normalize_line ''dsn=my_SECRET=abc;api_KEY=xyz;db_SECRET=def''
   \<and> normalize_line (normalize_line (''key: '' @ [CHR 0x22] @ ''a'' @ [newline] @ ''b'' @ [CHR 0x22] @ '' x_KEY=y''))
     \<noteq> normalize_line (''key: '' @ [CHR 0x22] @ ''a'' @ [newline] @ ''b'' @ [CHR 0x22] @ '' x_KEY=y'')"
  by code_simp

text \<open>
  Claim C5, amended. Normalizing the normalized line gives the normalized line again for
  every line that, stripped, is an environment assignment (a key over \<open>[A-Z0-9_]\<close>, \<open>=\<close> and
  a value), for every line in which none of \<open>_SECRET=\<close>, \<open>_KEY=\<close>, \<open>_TOKEN=\<close>, \<open>_PASSWORD=\<close>
  occurs, and for every line without a line break inside in which markers of one of the
  four kinds only occur, however often.
\<close>

theorem normalize_line_idempotent_env:
  assumes "(strip line = key @ ''='' @ v \<and> key \<noteq> [] \<and> (\<forall>x\<in>set key. in_cls Upper x)
              \<and> newline \<notin> set v)
         \<or> marker_kinds (strip line) = []
         \<or> (length (marker_kinds (strip line)) = 1 \<and> newline \<notin> set (strip line))"
  shows "normalize_line (normalize_line line) = normalize_line line"
  using assms
proof (elim disjE conjE)
  assume "strip line = key @ ''='' @ v" "key \<noteq> []" "\<forall>x\<in>set key. in_cls Upper x"
    "newline \<notin> set v"
  then show ?thesis by (rule normalize_env_line_twice)
next
  assume "marker_kinds (strip line) = []"
  then have "marker_free (strip line)" by (simp add: marker_free_kinds)
  then show ?thesis by (rule normalize_marker_free_twice)
next
  assume "length (marker_kinds (strip line)) = 1" "newline \<notin> set (strip line)"
  then show ?thesis by (intro normalize_one_kind_twice) simp_all
qed

text \<open>The lines \<open>API_KEY=abc123\<close>, \<open>port: 8080,\<close> and \<open>- "NODE_ENV=production"\<close>, indented and
  with their newline; the line \<open>export PATH=/usr/bin\<close>, which no rule rewrites; and the
  lines \<open>export API_KEY=abc\<close>, \<open>- "DB_PASSWORD=secret"\<close> and \<open>url: "x" a_KEY=b_KEY=c\<close>, with
  markers of one kind.\<close>

theorem normalize_line_idempotent_env_witness:
  "strip (''  API_KEY=abc123'' @ [newline]) = ''API_KEY'' @ ''='' @ ''abc123''
   \<and> list_all (in_cls Upper) ''API_KEY''
   \<and> newline \<notin> set ''abc123''
   \<and> normalize_line (''  API_KEY=abc123'' @ [newline]) = ''API_KEY=<KEY>''
   \<and> normalize_line (normalize_line (''  API_KEY=abc123'' @ [newline])) = normalize_line (''  API_KEY=abc123'' @ [newline])
   \<and> marker_kinds (strip (''  port: 8080,'' @ [newline])) = []
   \<and> normalize_line (''  port: 8080,'' @ [newline]) = ''port: <NUMBER>,''
   \<and> normalize_line (normalize_line (''  port: 8080,'' @ [newline])) = normalize_line (''  port: 8080,'' @ [newline])
   \<and> marker_kinds (strip (''  - '' @ [CHR 0x22] @ ''NODE_ENV=production'' @ [CHR 0x22, newline])) = []
   \<and> normalize_line (''  - '' @ [CHR 0x22] @ ''NODE_ENV=production'' @ [CHR 0x22, newline])
        = ''- '' @ [CHR 0x22] @ ''NODE_ENV=<VALUE>'' @ [CHR 0x22]
   \<and> normalize_line (normalize_line (''  - '' @ [CHR 0x22] @ ''NODE_ENV=production'' @ [CHR 0x22, newline]))
        = normalize_line (''  - '' @ [CHR 0x22] @ ''NODE_ENV=production'' @ [CHR 0x22, newline])
   \<and> marker_kinds (strip ''export PATH=/usr/bin'') = []
   \<and> normalize_line ''export PATH=/usr/bin'' = ''export PATH=/usr/bin''
   \<and> normalize_line (normalize_line ''export PATH=/usr/bin'') = normalize_line ''export PATH=/usr/bin''
   \<and> marker_kinds (strip ''export API_KEY=abc'') = [''_KEY='']
   \<and> newline \<notin> set (strip ''export API_KEY=abc'')
   \<and> normalize_line ''export API_KEY=abc'' = ''export API_KEY=<KEY>''
   \<and> normalize_line (normalize_line ''export API_KEY=abc'') = normalize_line ''export API_KEY=abc''
   \<and> marker_kinds (strip (''- '' @ [CHR 0x22] @ ''DB_PASSWORD=secret'' @ [CHR 0x22])) = [''_PASSWORD='']
   \<and> newline \<notin> set (strip (''- '' @ [CHR 0x22] @ ''DB_PASSWORD=secret'' @ [CHR 0x22]))
   \<and> normalize_line (''- '' @ [CHR 0x22] @ ''DB_PASSWORD=secret'' @ [CHR 0x22])
        = ''- '' @ [CHR 0x22] @ ''DB_PASSWORD=<PASSWORD>''
   \<and> normalize_line (normalize_line (''- '' @ [CHR 0x22] @ ''DB_PASSWORD=secret'' @ [CHR 0x22]))
        = normalize_line (''- '' @ [CHR 0x22] @ ''DB_PASSWORD=secret'' @ [CHR 0x22])
   \<and> marker_kinds (strip (''url: '' @ [CHR 0x22] @ ''x'' @ [CHR 0x22] @ '' a_KEY=b_KEY=c'')) = [''_KEY='']
   \<and> newline \<notin> set (strip (''url: '' @ [CHR 0x22] @ ''x'' @ [CHR 0x22] @ '' a_KEY=b_KEY=c''))
   \<and> normalize_line (''url: '' @ [CHR 0x22] @ ''x'' @ [CHR 0x22] @ '' a_KEY=b_KEY=c'')
        = ''url: '' @ [CHR 0x22] @ ''<VALUE>'' @ [CHR 0x22] @ '' a_KEY=b_KEY=<KEY>''
   \<and> normalize_line (normalize_line (''url: '' @ [CHR 0x22] @ ''x'' @ [CHR 0x22] @ '' a_KEY=b_KEY=c''))
        = normalize_line (''url: '' @ [CHR 0x22] @ ''x'' @ [CHR 0x22] @ '' a_KEY=b_KEY=c'')"
proof -
  have h1: "strip (''  API_KEY=abc123'' @ [newline]) = ''API_KEY'' @ ''='' @ ''abc123''" by code_simp
  have h2: "''API_KEY'' \<noteq> []" by simp
  have h3: "\<forall>x\<in>set ''API_KEY''. in_cls Upper x" by code_simp
  have h3': "list_all (in_cls Upper) ''API_KEY''" using h3 by (simp only: list_all_iff)
  have h4: "newline \<notin> set ''abc123''" by code_simp
  have v: "normalize_line (''  API_KEY=abc123'' @ [newline]) = ''API_KEY=<KEY>''" by code_simp
  have a: "normalize_line (normalize_line (''  API_KEY=abc123'' @ [newline])) = normalize_line (''  API_KEY=abc123'' @ [newline])"
    using normalize_line_idempotent_env [of "''  API_KEY=abc123'' @ [newline]" "''API_KEY''" "''abc123''"] h1 h2 h3 h4 by blast
  have j1: "marker_kinds (strip (''  port: 8080,'' @ [newline])) = []" by code_simp
  have j2: "normalize_line (''  port: 8080,'' @ [newline]) = ''port: <NUMBER>,''" by code_simp
  have b: "normalize_line (normalize_line (''  port: 8080,'' @ [newline])) = normalize_line (''  port: 8080,'' @ [newline])"
    using normalize_line_idempotent_env [of "''  port: 8080,'' @ [newline]" "[]" "[]"] j1 by blast
  have l1: "marker_kinds (strip (''  - '' @ [CHR 0x22] @ ''NODE_ENV=production'' @ [CHR 0x22, newline])) = []"
    by code_simp
  have l2: "normalize_line (''  - '' @ [CHR 0x22] @ ''NODE_ENV=production'' @ [CHR 0x22, newline])
        = ''- '' @ [CHR 0x22] @ ''NODE_ENV=<VALUE>'' @ [CHR 0x22]"
    by code_simp
  have c: "normalize_line (normalize_line (''  - '' @ [CHR 0x22] @ ''NODE_ENV=production'' @ [CHR 0x22, newline]))
        = normalize_line (''  - '' @ [CHR 0x22] @ ''NODE_ENV=production'' @ [CHR 0x22, newline])"
    using normalize_line_idempotent_env [of "''  - '' @ [CHR 0x22] @ ''NODE_ENV=production'' @ [CHR 0x22, newline]" "[]" "[]"] l1
    by blast
  have k1: "marker_kinds (strip ''export PATH=/usr/bin'') = []" by code_simp
  have k2: "normalize_line ''export PATH=/usr/bin'' = ''export PATH=/usr/bin''" by code_simp
  have d: "normalize_line (normalize_line ''export PATH=/usr/bin'') = normalize_line ''export PATH=/usr/bin''"
    using normalize_line_idempotent_env [of "''export PATH=/usr/bin''" "[]" "[]"] k1 by blast
  have m1: "marker_kinds (strip ''export API_KEY=abc'') = [''_KEY='']" by code_simp
  have m2: "newline \<notin> set (strip ''export API_KEY=abc'')" by code_simp
  have m3: "normalize_line ''export API_KEY=abc'' = ''export API_KEY=<KEY>''" by code_simp
  have m0: "length (marker_kinds (strip ''export API_KEY=abc'')) = 1" unfolding m1 by simp
  have e: "normalize_line (normalize_line ''export API_KEY=abc'') = normalize_line ''export API_KEY=abc''"
    using normalize_line_idempotent_env [of "''export API_KEY=abc''" "[]" "[]"] m0 m2 by blast
  have p1: "marker_kinds (strip (''- '' @ [CHR 0x22] @ ''DB_PASSWORD=secret'' @ [CHR 0x22])) = [''_PASSWORD='']"
    by code_simp
  have p2: "newline \<notin> set (strip (''- '' @ [CHR 0x22] @ ''DB_PASSWORD=secret'' @ [CHR 0x22]))" by code_simp
  have p3: "normalize_line (''- '' @ [CHR 0x22] @ ''DB_PASSWORD=secret'' @ [CHR 0x22])
        = ''- '' @ [CHR 0x22] @ ''DB_PASSWORD=<PASSWORD>''"
    by code_simp
  have p0: "length (marker_kinds (strip (''- '' @ [CHR 0x22] @ ''DB_PASSWORD=secret'' @ [CHR 0x22]))) = 1"
    unfolding p1 by simp
  have f: "normalize_line (normalize_line (''- '' @ [CHR 0x22] @ ''DB_PASSWORD=secret'' @ [CHR 0x22]))
        = normalize_line (''- '' @ [CHR 0x22] @ ''DB_PASSWORD=secret'' @ [CHR 0x22])"
    using normalize_line_idempotent_env [of "''- '' @ [CHR 0x22] @ ''DB_PASSWORD=secret'' @ [CHR 0x22]" "[]" "[]"] p0 p2
    by blast
  have q1: "marker_kinds (strip (''url: '' @ [CHR 0x22] @ ''x'' @ [CHR 0x22] @ '' a_KEY=b_KEY=c'')) = [''_KEY='']"
    by code_simp
  have q2: "newline \<notin> set (strip (''url: '' @ [CHR 0x22] @ ''x'' @ [CHR 0x22] @ '' a_KEY=b_KEY=c''))" by code_simp
  have q3: "normalize_line (''url: '' @ [CHR 0x22] @ ''x'' @ [CHR 0x22] @ '' a_KEY=b_KEY=c'')
        = ''url: '' @ [CHR 0x22] @ ''<VALUE>'' @ [CHR 0x22] @ '' a_KEY=b_KEY=<KEY>''"
    by code_simp
  have q0: "length (marker_kinds (strip (''url: '' @ [CHR 0x22] @ ''x'' @ [CHR 0x22] @ '' a_KEY=b_KEY=c''))) = 1"
    unfolding q1 by simp
  have g: "normalize_line (normalize_line (''url: '' @ [CHR 0x22] @ ''x'' @ [CHR 0x22] @ '' a_KEY=b_KEY=c''))
        = normalize_line (''url: '' @ [CHR 0x22] @ ''x'' @ [CHR 0x22] @ '' a_KEY=b_KEY=c'')"
    using normalize_line_idempotent_env [of "''url: '' @ [CHR 0x22] @ ''x'' @ [CHR 0x22] @ '' a_KEY=b_KEY=c''" "[]" "[]"] q0 q2
    by blast
  from h1 h3' h4 v a j1 j2 b l1 l2 c k1 k2 d m1 m2 m3 e p1 p2 p3 f q1 q2 q3 g show ?thesis
    by (intro conjI)
qed

section \<open>Comparison of a template with its parent\<close>

text \<open>
  Claim C1 says that each flagged line is reported as the right-trimmed original text of
  the very parent line whose normalized form is absent from the template, also when the
  parent file has comment or blank lines. The loop counts the normalized lines, from which
  comment and blank lines are dropped, and reads the original text at that count in the
  unfiltered lines of the file. In \<open>app.env\<close> above, a comment line comes first: the line
  whose normalized form is absent from the template is \<open>NEW_FEATURE_FLAG=true\<close>, the form
  of \<open>PORT=8080\<close> is present, and the line reported is \<open>PORT=8080\<close>.
\<close>

theorem find_missing_lines_reports_shifted_line: "fst (find_missing_lines drift_fs (init_checker ''/proj'' False) ''app.env.template'' ''app.env'')
     = [''PORT=8080'']
   \<and> normalize_line (''PORT=8080'' @ [newline]) \<in> set (normalized_lines [''PORT=xxxx'' @ [newline]])
   \<and> normalize_line (''NEW_FEATURE_FLAG=true'' @ [newline]) \<notin> set (normalized_lines [''PORT=xxxx'' @ [newline]])"
  by code_simp

text \<open>The comparison is by membership in the set of normalized template lines: the list
  of missing lines has one entry for each parent line, blank and comment lines apart,
  whose normalized form no template line shares, and it is empty when every normalized
  parent line is a normalized template line.\<close>

lemma flag_loop_length:
  "k + length xs \<le> n \<Longrightarrow>
   length (concat (map (\<lambda>(i, line). if line \<notin> S then (if i < n then [g i] else []) else [])
                      (enumerate k xs)))
     = length (filter (\<lambda>l. l \<notin> S) xs)"
  by (induction xs arbitrary: k) simp_all

lemma compare_lines_subset:
  "set (normalized_lines parent) \<subseteq> set (normalized_lines template) \<Longrightarrow>
   compare_lines template parent = []"
proof -
  assume sub: "set (normalized_lines parent) \<subseteq> set (normalized_lines template)"
  have "line \<in> set (normalized_lines template)"
    if "(i, line) \<in> set (enumerate 0 (normalized_lines parent))" for i line
    using that sub by (auto simp add: in_set_enumerate_eq)
  then show ?thesis by (auto simp add: compare_lines_def Let_def)
qed

lemma compare_lines_length:
  "length (compare_lines template parent) =
     length (filter (\<lambda>l. normalize_line l \<notin> set (normalized_lines template)) (filter keep_line parent))"
proof -
  have "0 + length (normalized_lines parent) \<le> length parent"
    by (simp add: normalized_lines_def)
  from flag_loop_length [OF this] show ?thesis
    by (simp add: compare_lines_def Let_def normalized_lines_def filter_map comp_def)
qed

text \<open>
  Claim C6 says that a parent line is flagged only if no template line shares its
  normalized form. The comparison itself is by membership in the set of normalized
  template lines, but the text that is reported comes from the index slip of claim C1.
  Below, the parent starts with a blank line. The only line that fails the membership
  test is \<open>DEBUG=1\<close>; the line reported as missing is \<open>HOST=localhost\<close>, whose normalized
  form the template line \<open>HOST=example\<close> shares.
\<close>

theorem flagged_line_shares_form:
  "filter (\<lambda>l. normalize_line l \<notin> set (normalized_lines [''HOST=example'' @ [newline]]))
     (filter keep_line [[newline], ''HOST=localhost'' @ [newline], ''DEBUG=1'' @ [newline]])
     = [''DEBUG=1'' @ [newline]]
   \<and> compare_lines [''HOST=example'' @ [newline]]
        [[newline], ''HOST=localhost'' @ [newline], ''DEBUG=1'' @ [newline]] = [''HOST=localhost'']
   \<and> normalize_line (''HOST=localhost'' @ [newline]) \<in> set (normalized_lines [''HOST=example'' @ [newline]])
   \<and> fst (find_missing_lines
        (\<lambda>p. if p = ''/proj/a.env.template'' then Some (Regular (Inr [''HOST=example'' @ [newline]]))
              else if p = ''/proj/a.env'' then
                Some (Regular (Inr [[newline], ''HOST=localhost'' @ [newline], ''DEBUG=1'' @ [newline]]))
              else None)
        (init_checker ''/proj'' False) ''a.env.template'' ''a.env'') = [''HOST=localhost'']"
  by code_simp

section \<open>Analysis and report\<close>

lemma set_update_subset: "set (AList.update k v al) \<subseteq> insert (k, v) (set al)"
  by (induction al) auto

lemma analyze_pair_fst:
  "fst (analyze_pair fs c pair acc) =
     (if fst (find_missing_lines fs c (fst pair) (snd pair)) \<noteq> []
      then AList.update (fst pair) (fst (find_missing_lines fs c (fst pair) (snd pair))) (fst acc)
      else fst acc)"
  by (simp add: analyze_pair_def Let_def)

lemma analyze_fold_entries:
  "(t, ls) \<in> set (fst (fold (analyze_pair fs c) ps acc)) \<Longrightarrow>
     (t, ls) \<in> set (fst acc) \<or> (ls \<noteq> [] \<and> t \<in> fst ` set ps)"
proof (induction ps arbitrary: acc)
  case Nil
  then show ?case by simp
next
  case (Cons pair ps)
  from Cons.prems have "(t, ls) \<in> set (fst (fold (analyze_pair fs c) ps (analyze_pair fs c pair acc)))"
    by simp
  from Cons.IH [OF this] show ?case
  proof
    assume a: "(t, ls) \<in> set (fst (analyze_pair fs c pair acc))"
    show ?thesis
    proof (cases "fst (find_missing_lines fs c (fst pair) (snd pair)) = []")
      case True
      with a show ?thesis by (simp add: analyze_pair_fst)
    next
      case False
      with a set_update_subset [of "fst pair" "fst (find_missing_lines fs c (fst pair) (snd pair))" "fst acc"]
      have "(t, ls) = (fst pair, fst (find_missing_lines fs c (fst pair) (snd pair))) \<or> (t, ls) \<in> set (fst acc)"
        by (auto simp add: analyze_pair_fst)
      with False show ?thesis by auto
    qed
  next
    assume "ls \<noteq> [] \<and> t \<in> fst ` set ps"
    then show ?thesis by auto
  qed
qed

lemma those_map_Some: "(\<And>x. x \<in> set xs \<Longrightarrow> f x \<noteq> None) \<Longrightarrow> those (map f xs) \<noteq> None"
  by (induction xs) (auto split: option.splits)

lemma analyze_parent_files: "parent_files (fst (analyze_all_files fs c)) = parent_files c"
  by (simp add: analyze_all_files_def Let_def)

lemma analyze_differences:
  "differences (fst (analyze_all_files fs c)) =
     fst (fold (analyze_pair fs c) (parent_files c)
            ([], [newline # ''Comparing template files with parent files...'']))"
  by (simp add: analyze_all_files_def Let_def)

lemma drift_differences:
  "differences (fst (analyze_all_files drift_fs drift_checker)) = [(''app.env.template'', [''PORT=8080''])]"
  by code_simp

text \<open>
  Claim C9. After the analysis every template recorded in the table of differences has
  a non-empty list of missing lines and is a key of the table of parents. Hence its
  section of the report is built by the branch that lists the lines, not by the branch
  \<open>No missing content found.\<close>, the lookup of its parent does not fail, and the report is
  produced.
\<close>

theorem differences_nonempty_and_matched:
  assumes "(t, ls) \<in> set (differences (fst (analyze_all_files fs c)))"
  shows "ls \<noteq> [] \<and> t \<in> fst ` set (parent_files (fst (analyze_all_files fs c)))
     \<and> report_section (fst (analyze_all_files fs c)) (t, ls) =
         Some ([''### '' @ t, ''*Compared to: '' @ the (map_of (parent_files c) t) @ ''*'', [],
                ''Missing lines that should be added to the template:'', ''```'']
               @ ls @ [''```'', []])
     \<and> generate_report (fst (analyze_all_files fs c)) timestamp \<noteq> None"
proof -
  have inv: "ls' \<noteq> [] \<and> t' \<in> fst ` set (parent_files c)"
    if "(t', ls') \<in> set (differences (fst (analyze_all_files fs c)))" for t' ls'
    using that unfolding analyze_differences
    by (auto dest: analyze_fold_entries)
  have sec: "report_section (fst (analyze_all_files fs c)) (t', ls') =
         Some ([''### '' @ t', ''*Compared to: '' @ the (map_of (parent_files c) t') @ ''*'', [],
                ''Missing lines that should be added to the template:'', ''```'']
               @ ls' @ [''```'', []])"
    if "(t', ls') \<in> set (differences (fst (analyze_all_files fs c)))" for t' ls'
  proof -
    from inv [OF that] have ne: "ls' \<noteq> []" and "t' \<in> fst ` set (parent_files c)" by simp_all
    then obtain p where "map_of (parent_files c) t' = Some p"
      by (metis map_of_eq_None_iff not_Some_eq)
    with ne show ?thesis by (simp add: report_section_def analyze_parent_files)
  qed
  have "those (map (report_section (fst (analyze_all_files fs c)))
          (differences (fst (analyze_all_files fs c)))) \<noteq> None"
  proof (rule those_map_Some)
    fix x assume "x \<in> set (differences (fst (analyze_all_files fs c)))"
    then show "report_section (fst (analyze_all_files fs c)) x \<noteq> None"
      using sec [of "fst x" "snd x"] by simp
  qed
  then have "generate_report (fst (analyze_all_files fs c)) timestamp \<noteq> None"
    by (auto simp add: generate_report_def)
  with inv [OF assms] sec [OF assms] show ?thesis by (simp add: analyze_parent_files)
qed

text \<open>The pair \<open>app.env.template\<close>, \<open>app.env\<close> of the example project.\<close>

theorem differences_nonempty_and_matched_witness:
  "(''app.env.template'', [''PORT=8080'']) \<in> set (differences (fst (analyze_all_files drift_fs drift_checker)))
   \<and> ''app.env.template'' \<in> fst ` set (parent_files (fst (analyze_all_files drift_fs drift_checker)))
   \<and> report_section (fst (analyze_all_files drift_fs drift_checker)) (''app.env.template'', [''PORT=8080'']) =
         Some [''### app.env.template'', ''*Compared to: app.env*'', [],
               ''Missing lines that should be added to the template:'', ''```'',
               ''PORT=8080'', ''```'', []]
   \<and> generate_report (fst (analyze_all_files drift_fs drift_checker)) ''2024-01-01 00:00:00'' \<noteq> None"
proof -
  have h: "(''app.env.template'', [''PORT=8080'']) \<in> set (differences (fst (analyze_all_files drift_fs drift_checker)))"
    by (simp add: drift_differences)
  have m: "the (map_of (parent_files drift_checker) ''app.env.template'') = ''app.env''"
    by (simp add: drift_checker_def)
  from differences_nonempty_and_matched [OF h, of "''2024-01-01 00:00:00''"] h m show ?thesis by simp
qed

lemma update_fresh: "k \<notin> fst ` set al \<Longrightarrow> AList.update k v al = al @ [(k, v)]"
  by (induction al) auto

lemma analyze_fold_fst:
  "distinct (map fst ps) \<Longrightarrow> fst ` set (fst acc) \<inter> fst ` set ps = {} \<Longrightarrow>
   fst (fold (analyze_pair fs c) ps acc) =
     fst acc @ map (\<lambda>pair. (fst pair, fst (find_missing_lines fs c (fst pair) (snd pair))))
                 (filter (\<lambda>pair. fst (find_missing_lines fs c (fst pair) (snd pair)) \<noteq> []) ps)"
proof (induction ps arbitrary: acc)
  case Nil
  then show ?case by simp
next
  case (Cons pair ps)
  have fresh: "fst pair \<notin> fst ` set (fst acc)" using Cons.prems(2) by auto
  have d: "distinct (map fst ps)" and n: "fst pair \<notin> fst ` set ps" using Cons.prems(1) by auto
  show ?case
  proof (cases "fst (find_missing_lines fs c (fst pair) (snd pair)) = []")
    case True
    then have e: "fst (analyze_pair fs c pair acc) = fst acc" by (simp add: analyze_pair_fst)
    have "fst ` set (fst (analyze_pair fs c pair acc)) \<inter> fst ` set ps = {}"
      using Cons.prems(2) e by auto
    from Cons.IH [OF d this] True e show ?thesis by simp
  next
    case False
    then have e: "fst (analyze_pair fs c pair acc) =
        fst acc @ [(fst pair, fst (find_missing_lines fs c (fst pair) (snd pair)))]"
      by (simp add: analyze_pair_fst update_fresh [OF fresh])
    have "fst ` set (fst (analyze_pair fs c pair acc)) \<inter> fst ` set ps = {}"
      using Cons.prems(2) n e by auto
    from Cons.IH [OF d this] False e show ?thesis by simp
  qed
qed

lemma analyze_pair_snd:
  "set (snd acc) \<union> set (snd (find_missing_lines fs c (fst pair) (snd pair)))
     \<subseteq> set (snd (analyze_pair fs c pair acc))"
  by (auto simp add: analyze_pair_def Let_def)

lemma analyze_fold_snd_mono:
  "set (snd acc) \<subseteq> set (snd (fold (analyze_pair fs c) ps acc))"
proof (induction ps arbitrary: acc)
  case Nil
  show ?case by simp
next
  case (Cons pair ps)
  from analyze_pair_snd [of acc fs c pair] Cons.IH [of "analyze_pair fs c pair acc"]
  show ?case by auto
qed

lemma analyze_fold_snd:
  "pair \<in> set ps \<Longrightarrow>
   set (snd (find_missing_lines fs c (fst pair) (snd pair)))
     \<subseteq> set (snd (fold (analyze_pair fs c) ps acc))"
proof (induction ps arbitrary: acc)
  case Nil
  then show ?case by simp
next
  case (Cons q ps)
  show ?case
  proof (cases "pair = q")
    case True
    from analyze_pair_snd [of acc fs c q] analyze_fold_snd_mono [of "analyze_pair fs c q acc" fs c ps]
    show ?thesis using True by auto
  next
    case False
    with Cons.prems have "pair \<in> set ps" by simp
    from Cons.IH [OF this, of "analyze_pair fs c q acc"] show ?thesis by simp
  qed
qed

lemma find_missing_lines_read_failure:
  assumes "isfile fs (path_join (base_dir c) t)" "isfile fs (path_join (base_dir c) p)"
    and "readlines fs (path_join (base_dir c) t) = Inl e
       \<or> (\<exists>ls. readlines fs (path_join (base_dir c) t) = Inr ls
              \<and> readlines fs (path_join (base_dir c) p) = Inl e)"
  shows "find_missing_lines fs c t p =
     ([], [''ERROR: Failed to compare '' @ [CHR 0x27] @ t @ [CHR 0x27] @ '' and ''
            @ [CHR 0x27] @ p @ [CHR 0x27] @ '': '' @ e])"
  using assms by (auto simp add: find_missing_lines_def Let_def)

text \<open>
  Claim C8. When opening or reading the template or the parent of a matched pair raises
  an error \<open>e\<close>, \<open>find_missing_lines\<close> returns the empty list and prints the one line
  \<open>ERROR: Failed to compare 'template' and 'parent': e\<close>; that line is in the output of the
  analysis, which records nothing for the template and records every other pair that has
  missing lines as if the failing pair were absent. (The table of parents is a
  dictionary: its keys are distinct.)
\<close>

theorem read_failure_contributes_nothing:
  assumes "distinct (map fst (parent_files c))"
    and "(t, p) \<in> set (parent_files c)"
    and "isfile fs (path_join (base_dir c) t)" and "isfile fs (path_join (base_dir c) p)"
    and "readlines fs (path_join (base_dir c) t) = Inl e
       \<or> (\<exists>ls. readlines fs (path_join (base_dir c) t) = Inr ls
              \<and> readlines fs (path_join (base_dir c) p) = Inl e)"
  shows "find_missing_lines fs c t p =
       ([], [''ERROR: Failed to compare '' @ [CHR 0x27] @ t @ [CHR 0x27] @ '' and ''
              @ [CHR 0x27] @ p @ [CHR 0x27] @ '': '' @ e])
     \<and> (''ERROR: Failed to compare '' @ [CHR 0x27] @ t @ [CHR 0x27] @ '' and ''
          @ [CHR 0x27] @ p @ [CHR 0x27] @ '': '' @ e) \<in> set (snd (analyze_all_files fs c))
     \<and> t \<notin> fst ` set (differences (fst (analyze_all_files fs c)))
     \<and> differences (fst (analyze_all_files fs c)) =
         map (\<lambda>pair. (fst pair, fst (find_missing_lines fs c (fst pair) (snd pair))))
           (filter (\<lambda>pair. pair \<noteq> (t, p) \<and> fst (find_missing_lines fs c (fst pair) (snd pair)) \<noteq> [])
              (parent_files c))"
proof -
  let ?msg = "''ERROR: Failed to compare '' @ [CHR 0x27] @ t @ [CHR 0x27] @ '' and ''
          @ [CHR 0x27] @ p @ [CHR 0x27] @ '': '' @ e"
  have r: "find_missing_lines fs c t p = ([], [?msg])"
    using assms(3-5) by (rule find_missing_lines_read_failure)
  have "set (snd (find_missing_lines fs c (fst (t, p)) (snd (t, p))))
          \<subseteq> set (snd (fold (analyze_pair fs c) (parent_files c)
                ([], [newline # ''Comparing template files with parent files...''])))"
    using assms(2) by (rule analyze_fold_snd)
  then have l: "?msg \<in> set (snd (analyze_all_files fs c))"
    by (simp add: r analyze_all_files_def Let_def)
  have d: "differences (fst (analyze_all_files fs c)) =
         map (\<lambda>pair. (fst pair, fst (find_missing_lines fs c (fst pair) (snd pair))))
           (filter (\<lambda>pair. fst (find_missing_lines fs c (fst pair) (snd pair)) \<noteq> []) (parent_files c))"
    using analyze_fold_fst [OF assms(1), of "([], [newline # ''Comparing template files with parent files...''])" fs c]
    by (simp add: analyze_differences)
  have f: "filter (\<lambda>pair. fst (find_missing_lines fs c (fst pair) (snd pair)) \<noteq> []) (parent_files c)
     = filter (\<lambda>pair. pair \<noteq> (t, p) \<and> fst (find_missing_lines fs c (fst pair) (snd pair)) \<noteq> []) (parent_files c)"
    by (rule filter_cong) (auto simp add: r)
  have k: "t \<notin> fst ` set (differences (fst (analyze_all_files fs c)))"
  proof
    assume "t \<in> fst ` set (differences (fst (analyze_all_files fs c)))"
    then obtain pair where m: "pair \<in> set (parent_files c)" and pt: "fst pair = t"
      and ne: "fst (find_missing_lines fs c (fst pair) (snd pair)) \<noteq> []"
      unfolding d by auto
    from assms(1) m assms(2) pt have "pair = (t, p)"
      by (metis eq_key_imp_eq_value prod.collapse)
    with ne r show False by simp
  qed
  from d f have d': "differences (fst (analyze_all_files fs c)) =
         map (\<lambda>pair. (fst pair, fst (find_missing_lines fs c (fst pair) (snd pair))))
           (filter (\<lambda>pair. pair \<noteq> (t, p) \<and> fst (find_missing_lines fs c (fst pair) (snd pair)) \<noteq> [])
              (parent_files c))"
    by simp
  from r l k d' show ?thesis by (intro conjI)
qed

text \<open>In the example project \<open>db.env\<close> cannot be read: the pair prints its diagnostic, and
  the pair of \<open>app.env\<close> that follows is analysed.\<close>

theorem read_failure_contributes_nothing_witness:
  "distinct (map fst (parent_files drift_checker))
   \<and> (''db.env.template'', ''db.env'') \<in> set (parent_files drift_checker)
   \<and> isfile drift_fs ''/proj/db.env.template'' \<and> isfile drift_fs ''/proj/db.env''
   \<and> readlines drift_fs ''/proj/db.env'' = Inl (''[Errno 13] Permission denied: '' @ [CHR 0x27] @ ''/proj/db.env'' @ [CHR 0x27])
   \<and> find_missing_lines drift_fs drift_checker ''db.env.template'' ''db.env'' =
       ([], [''ERROR: Failed to compare '' @ [CHR 0x27] @ ''db.env.template'' @ [CHR 0x27] @ '' and ''
              @ [CHR 0x27] @ ''db.env'' @ [CHR 0x27] @ '': [Errno 13] Permission denied: ''
              @ [CHR 0x27] @ ''/proj/db.env'' @ [CHR 0x27]])
   \<and> snd (analyze_all_files drift_fs drift_checker) =
       [newline # ''Comparing template files with parent files...'',
        ''Comparing: db.env.template <-> db.env'',
        ''ERROR: Failed to compare '' @ [CHR 0x27] @ ''db.env.template'' @ [CHR 0x27] @ '' and ''
          @ [CHR 0x27] @ ''db.env'' @ [CHR 0x27] @ '': [Errno 13] Permission denied: ''
          @ [CHR 0x27] @ ''/proj/db.env'' @ [CHR 0x27],
        ''  No missing lines found'',
        ''Comparing: app.env.template <-> app.env'']
   \<and> ''db.env.template'' \<notin> fst ` set (differences (fst (analyze_all_files drift_fs drift_checker)))
   \<and> differences (fst (analyze_all_files drift_fs drift_checker)) = [(''app.env.template'', [''PORT=8080''])]"
proof -
  have b: "base_dir drift_checker = ''/proj''" by (simp add: drift_checker_def)
  have j1: "path_join ''/proj'' ''db.env.template'' = ''/proj/db.env.template''" by code_simp
  have j2: "path_join ''/proj'' ''db.env'' = ''/proj/db.env''" by code_simp
  have h1: "distinct (map fst (parent_files drift_checker))" by (simp add: drift_checker_def)
  have h2: "(''db.env.template'', ''db.env'') \<in> set (parent_files drift_checker)" by (simp add: drift_checker_def)
  have h3: "isfile drift_fs (path_join (base_dir drift_checker) ''db.env.template'')" by code_simp
  have h4: "isfile drift_fs (path_join (base_dir drift_checker) ''db.env'')" by code_simp
  have h5a: "readlines drift_fs (path_join (base_dir drift_checker) ''db.env.template'') = Inr [''DB=x'' @ [newline]]" by code_simp
  have h5b: "readlines drift_fs (path_join (base_dir drift_checker) ''db.env'') = Inl (''[Errno 13] Permission denied: '' @ [CHR 0x27] @ ''/proj/db.env'' @ [CHR 0x27])" by code_simp
  have h5: "readlines drift_fs (path_join (base_dir drift_checker) ''db.env.template'') = Inl (''[Errno 13] Permission denied: '' @ [CHR 0x27] @ ''/proj/db.env'' @ [CHR 0x27])
       \<or> (\<exists>ls. readlines drift_fs (path_join (base_dir drift_checker) ''db.env.template'') = Inr ls
              \<and> readlines drift_fs (path_join (base_dir drift_checker) ''db.env'') = Inl (''[Errno 13] Permission denied: '' @ [CHR 0x27] @ ''/proj/db.env'' @ [CHR 0x27]))"
    using h5a h5b by blast
  note t = read_failure_contributes_nothing [OF h1 h2 h3 h4 h5]
  from t have t1: "find_missing_lines drift_fs drift_checker ''db.env.template'' ''db.env'' =
       ([], [''ERROR: Failed to compare '' @ [CHR 0x27] @ ''db.env.template'' @ [CHR 0x27] @ '' and ''
              @ [CHR 0x27] @ ''db.env'' @ [CHR 0x27] @ '': [Errno 13] Permission denied: ''
              @ [CHR 0x27] @ ''/proj/db.env'' @ [CHR 0x27]])"
    by simp
  have t2: "snd (analyze_all_files drift_fs drift_checker) =
       [newline # ''Comparing template files with parent files...'',
        ''Comparing: db.env.template <-> db.env'',
        ''ERROR: Failed to compare '' @ [CHR 0x27] @ ''db.env.template'' @ [CHR 0x27] @ '' and ''
          @ [CHR 0x27] @ ''db.env'' @ [CHR 0x27] @ '': [Errno 13] Permission denied: ''
          @ [CHR 0x27] @ ''/proj/db.env'' @ [CHR 0x27],
        ''  No missing lines found'',
        ''Comparing: app.env.template <-> app.env'']"
    by code_simp
  from t have t3: "''db.env.template'' \<notin> fst ` set (differences (fst (analyze_all_files drift_fs drift_checker)))" by blast
  have g3: "isfile drift_fs ''/proj/db.env.template''" using h3 by (simp only: b j1)
  have g4: "isfile drift_fs ''/proj/db.env''" using h4 by (simp only: b j2)
  have g5: "readlines drift_fs ''/proj/db.env'' = Inl (''[Errno 13] Permission denied: '' @ [CHR 0x27] @ ''/proj/db.env'' @ [CHR 0x27])"
    using h5b by (simp only: b j2)
  from h1 h2 g3 g4 g5 t1 t2 t3 drift_differences show ?thesis by (intro conjI)
qed

end
